theory Spec2Isabelle
  imports Main
begin

section \<open>Python string primitives used by the bot\<close>

text \<open>
  Characters are code points below 256. \<open>str.strip()\<close> removes the white space of
  that range from both ends; \<open>str.isdigit()\<close> holds for a non-empty string whose
  characters are all digits, which below 256 are the ASCII digits and the superscripts
  two, three and one (0xB2, 0xB3, 0xB9). \<open>int()\<close> is applied by the code to strings that
  passed \<open>isdigit\<close> and to the result of \<open>str\<close>: of those it accepts the ones made of
  ASCII digits after an optional minus sign, and raises \<open>ValueError\<close> (here \<open>None\<close>) for the
  others. Both conversions between \<open>int\<close> and \<open>str\<close> raise \<open>ValueError\<close> when more than
  4300 digits are involved (the interpreter's default limit).
\<close>

datatype py_error = InvalidStateError | ValueError

definition py_isspace :: "char \<Rightarrow> bool" where
  "py_isspace c = (of_char c \<in> {9, 10, 11, 12, 13, 28, 29, 30, 31, 32, 133, 160 :: nat})"

definition strip :: "string \<Rightarrow> string" where
  "strip s = rev (dropWhile py_isspace (rev (dropWhile py_isspace s)))"

definition ascii_digit :: "char \<Rightarrow> bool" where
  "ascii_digit c = (48 \<le> (of_char c :: nat) \<and> (of_char c :: nat) \<le> 57)"

definition py_isdigit_char :: "char \<Rightarrow> bool" where
  "py_isdigit_char c = (ascii_digit c \<or> of_char c \<in> {178, 179, 185 :: nat})"

definition py_isdigit :: "string \<Rightarrow> bool" where
  "py_isdigit s = (s \<noteq> [] \<and> list_all py_isdigit_char s)"

definition startswith_plus :: "string \<Rightarrow> bool" where
  "startswith_plus s = (case s of [] \<Rightarrow> False | c # _ \<Rightarrow> c = CHR ''+'')"

definition digit_char :: "nat \<Rightarrow> char" where
  "digit_char d = char_of (48 + d)"

fun str_nat :: "nat \<Rightarrow> string" where
  "str_nat n = (if n < 10 then [digit_char n] else str_nat (n div 10) @ [digit_char (n mod 10)])"

declare str_nat.simps [simp del]

definition str_int :: "int \<Rightarrow> string" where
  "str_int i = (if i < 0 then CHR ''-'' # str_nat (nat (- i)) else str_nat (nat i))"

fun nat_of_digits :: "nat \<Rightarrow> string \<Rightarrow> nat option" where
  "nat_of_digits acc [] = Some acc"
| "nat_of_digits acc (c # cs) =
     (if ascii_digit c then nat_of_digits (10 * acc + (of_char c - 48)) cs else None)"

definition max_str_digits :: nat where
  "max_str_digits = 4300"

definition py_str :: "int \<Rightarrow> py_error + string" where
  "py_str i =
     (if max_str_digits < length (str_nat (nat \<bar>i\<bar>)) then Inl ValueError else Inr (str_int i))"

definition py_int :: "string \<Rightarrow> int option" where
  "py_int s =
     (if max_str_digits < length (filter ascii_digit s) then None
      else case s of
        [] \<Rightarrow> None
      | c # cs \<Rightarrow>
          if c = CHR ''-''
          then (if cs = [] then None else map_option (\<lambda>n. - int n) (nat_of_digits 0 cs))
          else map_option int (nat_of_digits 0 s))"

section \<open>The durable list of account ids\<close>

text \<open>
  \<open>logged_in_user_ids.txt\<close> is modelled as the list of its lines, each with its line
  terminator, or \<open>None\<close> while the file does not exist; reading and writing the file are
  taken to succeed. \<open>add_user_id_to_store\<close> converts the id with \<open>str\<close> before its \<open>try\<close>,
  so a \<open>ValueError\<close> of that conversion leaves the function. Then it reads the stripped
  lines into a set, returns without writing when the id's decimal text is among them,
  and otherwise rewrites the file from the values of the lines that pass \<open>isdigit\<close> plus
  the new id. A line that passes \<open>isdigit\<close> and is refused by \<open>int\<close> raises inside the set
  comprehension, before the file is reopened for writing: the handler logs it and the
  file stays as it was. The integers written were read by \<open>int\<close>, so \<open>str\<close> accepts them.
\<close>

definition newline :: char where
  "newline = char_of (10 :: nat)"

definition id_line :: "int \<Rightarrow> string" where
  "id_line v = str_int v @ [newline]"

definition add_user_id_to_store :: "int \<Rightarrow> string list option \<Rightarrow> py_error + string list option" where
  "add_user_id_to_store user_id_to_add store =
     (case py_str user_id_to_add of
        Inl e \<Rightarrow> Inl e
      | Inr user_id_to_add_str \<Rightarrow>
          Inr (let existing_ids = (case store of None \<Rightarrow> [] | Some ls \<Rightarrow> map strip ls)
               in if user_id_to_add_str \<in> set existing_ids then store
                  else (case those (map py_int (filter py_isdigit existing_ids)) of
                          None \<Rightarrow> store
                        | Some numeric_ids \<Rightarrow>
                            (case py_int user_id_to_add_str of
                               None \<Rightarrow> store
                             | Some n \<Rightarrow>
                                 Some (map id_line (sorted_list_of_set (set numeric_ids \<union> {n})))))))"

text \<open>
  A file is well kept when every line is the decimal text of an integer followed by a
  newline and the integers are strictly ascending (so no integer occurs twice).
\<close>

definition well_kept :: "string list \<Rightarrow> bool" where
  "well_kept ls =
     (case those (map (\<lambda>l. py_int (strip l)) ls) of
        None \<Rightarrow> False
      | Some xs \<Rightarrow> sorted_wrt (<) xs \<and> ls = map id_line xs)"

definition kept :: "string list option \<Rightarrow> bool" where
  "kept store = (case store of None \<Rightarrow> True | Some ls \<Rightarrow> well_kept ls)"

definition lines_of_id :: "int \<Rightarrow> string list option \<Rightarrow> nat" where
  "lines_of_id v store =
     (case store of None \<Rightarrow> 0
      | Some ls \<Rightarrow> length (filter (\<lambda>l. py_int (strip l) = Some v) ls))"

text \<open>
  What an add finds in the file: whether the id's decimal text is one of the stripped
  lines, the stripped lines that pass \<open>isdigit\<close>, whether \<open>int\<close> accepts each of them, and
  the integers they stand for.
\<close>

definition listed :: "int \<Rightarrow> string list option \<Rightarrow> bool" where
  "listed v store = (case store of None \<Rightarrow> False | Some ls \<Rightarrow> str_int v \<in> set (map strip ls))"

definition digit_lines :: "string list option \<Rightarrow> string list" where
  "digit_lines store = (case store of None \<Rightarrow> [] | Some ls \<Rightarrow> filter py_isdigit (map strip ls))"

definition digit_lines_readable :: "string list option \<Rightarrow> bool" where
  "digit_lines_readable store = list_all (\<lambda>s. py_int s \<noteq> None) (digit_lines store)"

definition digit_line_ids :: "string list option \<Rightarrow> int list" where
  "digit_line_ids store = List.map_filter py_int (digit_lines store)"

section \<open>The account session task\<close>

text \<open>
  \<open>run_user_instance\<close> talks to the account-client library at its \<open>await\<close>s. What
  each awaited call does is the library's matter, so it is a parameter: an await
  returns a value, raises, or has not completed yet. \<open>CancelledError\<close> derives from
  \<open>BaseException\<close>: no \<open>except Exception\<close> clause catches it. The other exceptions
  derive from \<open>Exception\<close>.
\<close>

datatype exn =
    SessionPasswordNeededError
  | PhoneCodeInvalidError
  | PhoneNumberInvalidError
  | PasswordHashInvalidError
  | OtherError
  | CancelledError

datatype 'a outcome = Ret 'a | Raise exn | Pending

text \<open>Where a task that has not finished is suspended.\<close>

datatype wait_point = AtLibrary | AtCode | AtPassword

datatype result = Returned "int option" | Raised exn | Suspended wait_point

text \<open>
  The logged-in user entity \<open>me\<close> is kept as its id; \<open>None\<close> is a falsy \<open>me\<close>.
  \<open>send_code_request\<close> and the two \<open>sign_in\<close> calls depend on what they are given.
  \<open>save_session\<close> is the write of the session text to the session path.
\<close>

record library =
  connect :: "bool outcome"
  is_user_authorized :: "bool outcome"
  send_code_request :: "string \<Rightarrow> unit outcome"
  sign_in_code :: "string \<Rightarrow> string \<Rightarrow> int option outcome"
  sign_in_password :: "string \<Rightarrow> int option outcome"
  get_me :: "int option outcome"
  is_user_authorized_again :: "bool outcome"
  save_session :: "unit outcome"

text \<open>
  The client as the task leaves it: whether the connection is up, whether the session
  was written, and whether the relay handler is installed with the monitoring task
  created (the watch phase). \<open>client.disconnect()\<close> is taken to complete.
\<close>

record client =
  connected :: bool
  session_saved :: bool
  watching :: bool

definition new_client :: client where
  "new_client = \<lparr>connected = False, session_saved = False, watching = False\<rparr>"

definition disconnect :: "client \<Rightarrow> client" where
  "disconnect c = c\<lparr>connected := False\<rparr>"

definition await :: "client \<Rightarrow> wait_point \<Rightarrow> 'a outcome \<Rightarrow> ('a \<Rightarrow> client \<times> result)
    \<Rightarrow> (exn \<Rightarrow> client \<times> result) \<Rightarrow> client \<times> result" where
  "await c w r k h = (case r of Ret v \<Rightarrow> k v | Raise e \<Rightarrow> h e | Pending \<Rightarrow> (c, Suspended w))"

text \<open>
  The two handlers of the outer \<open>try\<close>: a credential rejection disconnects (when the
  client is connected) and is raised again, any other \<open>Exception\<close> disconnects and returns
  \<open>None\<close>; a \<open>CancelledError\<close> matches neither clause and leaves the function as it is.
\<close>

definition outer_except :: "client \<Rightarrow> exn \<Rightarrow> client \<times> result" where
  "outer_except c e =
     (if e \<in> {PhoneCodeInvalidError, PhoneNumberInvalidError, PasswordHashInvalidError}
      then (if connected c then disconnect c else c, Raised e)
      else if e = CancelledError then (c, Raised CancelledError)
      else (if connected c then disconnect c else c, Returned None))"

text \<open>Lines 95 to 221: the authorization check, the session write, the watch phase.\<close>

definition finish_login :: "library \<Rightarrow> client \<Rightarrow> int option \<Rightarrow> client \<times> result" where
  "finish_login lib c me =
     await c AtLibrary (is_user_authorized_again lib)
       (\<lambda>authorized.
          if \<not> authorized \<or> me = None
          then (if connected c then disconnect c else c, Returned None)
          else await c AtLibrary (save_session lib)
                 (\<lambda>_. (c\<lparr>session_saved := True, watching := True\<rparr>, Returned me))
                 (outer_except c))
       (outer_except c)"

text \<open>The \<open>except SessionPasswordNeededError\<close> clause, lines 58 to 76.\<close>

definition password_step :: "library \<Rightarrow> client \<Rightarrow> string option outcome \<Rightarrow> client \<times> result" where
  "password_step lib c get_password_callback =
     await c AtPassword get_password_callback
       (\<lambda>user_password.
          case user_password of
            None \<Rightarrow> (disconnect c, Returned None)
          | Some pw \<Rightarrow>
              await c AtLibrary (sign_in_password lib pw)
                (finish_login lib c)
                (\<lambda>e. if e = PasswordHashInvalidError then outer_except (disconnect c) e
                     else if e = CancelledError then outer_except c e
                     else (disconnect c, Returned None)))
       (outer_except c)"

text \<open>The \<open>except\<close> clauses of the inner \<open>try\<close>, lines 58 and 78 to 89.\<close>

definition login_except :: "library \<Rightarrow> client \<Rightarrow> string option outcome \<Rightarrow> exn \<Rightarrow> client \<times> result" where
  "login_except lib c get_password_callback e =
     (if e = SessionPasswordNeededError then password_step lib c get_password_callback
      else if e = PhoneCodeInvalidError \<or> e = PhoneNumberInvalidError
      then outer_except (disconnect c) e
      else if e = CancelledError then outer_except c e
      else (disconnect c, Returned None))"

text \<open>The body of the inner \<open>try\<close>, lines 46 to 56.\<close>

definition code_step :: "library \<Rightarrow> client \<Rightarrow> string \<Rightarrow> string option outcome
    \<Rightarrow> string option outcome \<Rightarrow> client \<times> result" where
  "code_step lib c phone_to_login get_code_callback get_password_callback =
     await c AtLibrary (send_code_request lib phone_to_login)
       (\<lambda>_. await c AtCode get_code_callback
          (\<lambda>user_code.
             case user_code of
               None \<Rightarrow> (disconnect c, Returned None)
             | Some code \<Rightarrow>
                 await c AtLibrary (sign_in_code lib phone_to_login code)
                   (finish_login lib c)
                   (login_except lib c get_password_callback))
          (login_except lib c get_password_callback))
       (login_except lib c get_password_callback)"

definition run_user_instance :: "library \<Rightarrow> string \<Rightarrow> string option outcome
    \<Rightarrow> string option outcome \<Rightarrow> client \<times> result" where
  "run_user_instance lib phone_to_login get_code_callback get_password_callback =
     await new_client AtLibrary (connect lib)
       (\<lambda>ok.
          if \<not> ok then (new_client, Returned None)
          else
            let c = new_client\<lparr>connected := True\<rparr> in
            await c AtLibrary (is_user_authorized lib)
              (\<lambda>authorized.
                 if \<not> authorized
                 then code_step lib c phone_to_login get_code_callback get_password_callback
                 else await c AtLibrary (get_me lib) (finish_login lib c) (outer_except c))
              (outer_except c))
       (outer_except new_client)"

text \<open>
  The callbacks built in \<open>received_phone\<close> wait on a future for 300 seconds. A future is
  unset, holds a result (a string or \<open>None\<close>), or was cancelled; \<open>asyncio.wait_for\<close>
  cancels the future when the 300 seconds pass and raises \<open>TimeoutError\<close>, which the
  callback turns into \<open>None\<close>. So a cancelled future reads as a wait that timed out.
\<close>

datatype fut = Unset | Result "string option" | Cancelled

datatype waited = Got "string option" | TimedOut | WaitCancelled | Waiting

definition wait_for :: "fut \<Rightarrow> waited" where
  "wait_for f = (case f of Unset \<Rightarrow> Waiting | Result v \<Rightarrow> Got v | Cancelled \<Rightarrow> TimedOut)"

definition get_code_from_bot_callback :: "waited \<Rightarrow> string option outcome" where
  "get_code_from_bot_callback w =
     (case w of Got code \<Rightarrow> Ret code | TimedOut \<Rightarrow> Ret None
      | WaitCancelled \<Rightarrow> Raise CancelledError | Waiting \<Rightarrow> Pending)"

definition get_password_from_bot_callback :: "waited \<Rightarrow> string option outcome" where
  "get_password_from_bot_callback w =
     (case w of Got password \<Rightarrow> Ret password | TimedOut \<Rightarrow> Ret None
      | WaitCancelled \<Rightarrow> Raise CancelledError | Waiting \<Rightarrow> Pending)"

text \<open>The task ended before the watch phase: it is not suspended and is not watching.\<close>

definition ended_before_watch :: "client \<times> result \<Rightarrow> bool" where
  "ended_before_watch r =
     (\<not> watching (fst r) \<and> (case snd r of Suspended _ \<Rightarrow> False | _ \<Rightarrow> True))"

text \<open>The task gets as far as waiting for the code: it connected, the session is not
  authorized yet, and the code request went out.\<close>

definition reaches_code :: "library \<Rightarrow> string \<Rightarrow> bool" where
  "reaches_code lib phone =
     (connect lib = Ret True \<and> is_user_authorized lib = Ret False
      \<and> send_code_request lib phone = Ret ())"

text \<open>No await of the run raises \<open>CancelledError\<close>: the task is not cancelled.\<close>

definition never_cancelled :: "library \<Rightarrow> string option outcome \<Rightarrow> string option outcome \<Rightarrow> bool" where
  "never_cancelled lib cb pw =
     (connect lib \<noteq> Raise CancelledError \<and> is_user_authorized lib \<noteq> Raise CancelledError
      \<and> (\<forall>p. send_code_request lib p \<noteq> Raise CancelledError)
      \<and> (\<forall>p c. sign_in_code lib p c \<noteq> Raise CancelledError)
      \<and> (\<forall>p. sign_in_password lib p \<noteq> Raise CancelledError)
      \<and> get_me lib \<noteq> Raise CancelledError
      \<and> is_user_authorized_again lib \<noteq> Raise CancelledError
      \<and> save_session lib \<noteq> Raise CancelledError
      \<and> cb \<noteq> Raise CancelledError \<and> pw \<noteq> Raise CancelledError)"

section \<open>The bot: registry, login conversation, logout\<close>

text \<open>
  The state of \<open>manager_and_bot.py\<close>. Futures and tasks are objects referred to from
  several places (the user's \<open>user_data\<close>, the registry, the callbacks of the task), so
  they live in a store addressed by numbers. A task carries what the coroutine
  \<open>run_user_instance\<close> was started with: the library behind its client, the phone, and
  the two futures its callbacks wait on (the ones in \<open>user_data\<close> when the task was
  created). The texts sent to a user are kept as message kinds, in sending order.
\<close>

datatype conv_state = AWAIT_PHONE | AWAIT_CODE | AWAIT_PASSWORD | END

datatype msg =
    NotConfigured
  | ActiveSession
  | AskPhone
  | InvalidPhone
  | Attempting string
  | AskCode
  | GotCode
  | AskPassword
  | CodeAlreadyProcessed
  | PasswordReceived
  | LoginSuccessful int
  | LoginFailed
  | LoginUnclear
  | LoginTimedOut
  | LoginRejected exn
  | LoginUnexpected exn
  | LoginUnexpectedValueError
  | NoLoginTask
  | LoginCancelled
  | LoggedOutRemoved
  | LoggedOutRemoveFailed
  | LoggedOutNoFile
  | NotLoggedIn

record task =
  t_owner :: int
  t_library :: library
  t_phone :: string
  t_code_future :: nat
  t_password_future :: nat
  t_cancelled :: bool

record user_data =
  phone_to_login :: "string option"
  code_future :: "nat option"
  password_future :: "nat option"
  current_login_task :: "nat option"

definition no_user_data :: user_data where
  "no_user_data = \<lparr>phone_to_login = None, code_future = None, password_future = None,
     current_login_task = None\<rparr>"

record bot =
  api_configured :: bool
  active_user_telethon_tasks :: "int \<Rightarrow> nat option"
  tasks :: "nat \<Rightarrow> task"
  task_count :: nat
  futures :: "nat \<Rightarrow> fut"
  future_count :: nat
  user_datas :: "int \<Rightarrow> user_data"
  conversation :: "int \<Rightarrow> conv_state"
  sent :: "(int \<times> msg) list"
  session_files :: "int set"
  user_ids_file :: "string list option"
  libraries :: "nat \<Rightarrow> library"
  os_remove_fails :: bool

text \<open>
  \<open>libraries b n\<close> is the behaviour of the account-client library for the \<open>n\<close>th client the
  bot creates, and \<open>os_remove_fails\<close> says whether \<open>os.remove\<close> raises \<open>OSError\<close>: both
  belong to the environment. \<open>api_configured\<close> is \<open>APP_API_ID and APP_API_HASH\<close>.
\<close>

subsection \<open>Tasks\<close>

text \<open>
  How far a task has come follows from the futures it waits on: the coroutine is run
  against the current futures. A cancelled task has ended with \<open>CancelledError\<close> by the time
  the next update is handled.
\<close>

datatype task_state = Running wait_point | Finished "int option" | Failed exn | TaskCancelled

definition task_run :: "bot \<Rightarrow> task \<Rightarrow> client \<times> result" where
  "task_run b t =
     run_user_instance (t_library t) (t_phone t)
       (get_code_from_bot_callback (wait_for (futures b (t_code_future t))))
       (get_password_from_bot_callback (wait_for (futures b (t_password_future t))))"

definition task_state_of :: "bot \<Rightarrow> nat \<Rightarrow> task_state" where
  "task_state_of b tid =
     (if t_cancelled (tasks b tid) then TaskCancelled
      else case snd (task_run b (tasks b tid)) of
             Suspended w \<Rightarrow> Running w
           | Returned v \<Rightarrow> Finished v
           | Raised e \<Rightarrow> Failed e)"

definition task_done :: "bot \<Rightarrow> nat \<Rightarrow> bool" where
  "task_done b tid = (case task_state_of b tid of Running _ \<Rightarrow> False | _ \<Rightarrow> True)"

text \<open>
  \<open>task.cancel()\<close>: the task is marked, and the future it is waiting on inside
  \<open>asyncio.wait_for\<close>, if still unset, is cancelled with it.
\<close>

definition task_cancel :: "nat \<Rightarrow> bot \<Rightarrow> bot" where
  "task_cancel tid b =
     (let t = tasks b tid;
          fs = (case task_state_of b tid of
                  Running AtCode \<Rightarrow> (futures b)(t_code_future t := Cancelled)
                | Running AtPassword \<Rightarrow> (futures b)(t_password_future t := Cancelled)
                | _ \<Rightarrow> futures b)
      in b\<lparr>tasks := (tasks b)(tid := t\<lparr>t_cancelled := True\<rparr>), futures := fs\<rparr>)"

text \<open>
  A session is live while its task has not ended, and from then on while its watch phase
  runs: the monitoring task that \<open>run_user_instance\<close> creates before it returns the id is a
  local of the coroutine, and nothing in the bot stops it.
\<close>

definition live_session :: "bot \<Rightarrow> nat \<Rightarrow> bool" where
  "live_session b tid =
     (\<not> t_cancelled (tasks b tid)
      \<and> (\<not> task_done b tid \<or> watching (fst (task_run b (tasks b tid)))))"

definition live_sessions :: "bot \<Rightarrow> int \<Rightarrow> nat list" where
  "live_sessions b u =
     filter (\<lambda>tid. t_owner (tasks b tid) = u \<and> live_session b tid) [0 ..< task_count b]"

text \<open>The 300 seconds of the code callback's \<open>wait_for\<close> pass while the task waits there.\<close>

definition code_wait_times_out :: "nat \<Rightarrow> bot \<Rightarrow> bot" where
  "code_wait_times_out tid b =
     (if task_state_of b tid = Running AtCode
      then b\<lparr>futures := (futures b)(t_code_future (tasks b tid) := Cancelled)\<rparr> else b)"

subsection \<open>Futures\<close>

definition fut_done :: "bot \<Rightarrow> nat \<Rightarrow> bool" where
  "fut_done b a = (futures b a \<noteq> Unset)"

definition set_result :: "nat \<Rightarrow> string option \<Rightarrow> bot \<Rightarrow> py_error + bot" where
  "set_result a v b =
     (if futures b a = Unset then Inr (b\<lparr>futures := (futures b)(a := Result v)\<rparr>)
      else Inl InvalidStateError)"

definition new_future :: "bot \<Rightarrow> nat \<times> bot" where
  "new_future b =
     (future_count b,
      b\<lparr>futures := (futures b)(future_count b := Unset), future_count := Suc (future_count b)\<rparr>)"

subsection \<open>Handlers\<close>

definition reply_text :: "int \<Rightarrow> msg \<Rightarrow> bot \<Rightarrow> bot" where
  "reply_text u m b = b\<lparr>sent := sent b @ [(u, m)]\<rparr>"

definition set_user_data :: "int \<Rightarrow> user_data \<Rightarrow> bot \<Rightarrow> bot" where
  "set_user_data u d b = b\<lparr>user_datas := (user_datas b)(u := d)\<rparr>"

definition pop_task :: "int \<Rightarrow> bot \<Rightarrow> bot" where
  "pop_task u b = b\<lparr>active_user_telethon_tasks := (active_user_telethon_tasks b)(u := None)\<rparr>"

definition login_entry :: "int \<Rightarrow> bot \<Rightarrow> bot \<times> conv_state" where
  "login_entry user_id b =
     (if \<not> api_configured b then (reply_text user_id NotConfigured b, END)
      else case active_user_telethon_tasks b user_id of
             Some tid \<Rightarrow>
               if \<not> task_done b tid then (reply_text user_id ActiveSession b, END)
               else (reply_text user_id AskPhone b, AWAIT_PHONE)
           | None \<Rightarrow> (reply_text user_id AskPhone b, AWAIT_PHONE))"

definition valid_phone :: "string \<Rightarrow> bool" where
  "valid_phone phone = (startswith_plus phone \<and> py_isdigit (drop 1 phone) \<and> length phone > 7)"

definition received_phone :: "int \<Rightarrow> string \<Rightarrow> bot \<Rightarrow> bot \<times> conv_state" where
  "received_phone bot_user_id text b =
     (let phone = strip text in
      if \<not> valid_phone phone then (reply_text bot_user_id InvalidPhone b, AWAIT_PHONE)
      else
        let (cf, b1) = new_future b;
            (pf, b2) = new_future b1;
            b3 = reply_text bot_user_id (Attempting phone) b2;
            tid = task_count b3;
            telethon_task = \<lparr>t_owner = bot_user_id, t_library = libraries b3 tid,
               t_phone = phone, t_code_future = cf, t_password_future = pf,
               t_cancelled = False\<rparr>;
            b4 = b3\<lparr>tasks := (tasks b3)(tid := telethon_task), task_count := Suc tid,
               active_user_telethon_tasks := (active_user_telethon_tasks b3)(bot_user_id := Some tid)\<rparr>;
            b5 = set_user_data bot_user_id
               \<lparr>phone_to_login = Some phone, code_future = Some cf, password_future = Some pf,
                current_login_task = Some tid\<rparr> b4
        in (reply_text bot_user_id AskCode b5, AWAIT_CODE))"

definition received_code :: "int \<Rightarrow> string \<Rightarrow> bot \<Rightarrow> py_error + bot \<times> conv_state" where
  "received_code bot_user_id text b =
     (let code = strip text in
      case code_future (user_datas b bot_user_id) of
        Some a \<Rightarrow>
          if \<not> fut_done b a
          then (case set_result a (Some code) b of
                  Inl e \<Rightarrow> Inl e
                | Inr b1 \<Rightarrow>
                    Inr (reply_text bot_user_id AskPassword (reply_text bot_user_id GotCode b1),
                         AWAIT_PASSWORD))
          else Inr (reply_text bot_user_id CodeAlreadyProcessed b, AWAIT_PASSWORD)
      | None \<Rightarrow> Inr (reply_text bot_user_id CodeAlreadyProcessed b, AWAIT_PASSWORD))"

text \<open>
  \<open>await asyncio.wait_for(login_task, timeout=30.0)\<close>: a task that has ended gives its
  result or raises what it raised; a task still running after the 30 seconds is
  cancelled by \<open>wait_for\<close>, which then raises \<open>TimeoutError\<close>.
\<close>

datatype awaited = Value "int option" | Threw exn | TimeoutError

definition wait_for_task :: "nat \<Rightarrow> bot \<Rightarrow> bot \<times> awaited" where
  "wait_for_task tid b =
     (case task_state_of b tid of
        Running _ \<Rightarrow> (task_cancel tid b, TimeoutError)
      | Finished v \<Rightarrow> (b, Value v)
      | Failed e \<Rightarrow> (b, Threw e)
      | TaskCancelled \<Rightarrow> (b, Threw CancelledError))"

text \<open>
  The \<open>try\<close> of \<open>received_password\<close>. A \<open>ValueError\<close> out of \<open>add_user_id_to_store\<close> is
  caught by the \<open>except Exception\<close> clause. A \<open>CancelledError\<close> out of the wait matches no
  \<open>except\<close> clause; the \<open>finally\<close> clause then returns and so discards it.
\<close>

definition login_outcome :: "int \<Rightarrow> awaited \<Rightarrow> bot \<Rightarrow> bot" where
  "login_outcome bot_user_id r b =
     (case r of
        Value (Some logged_in_telethon_user_id) \<Rightarrow>
          (case add_user_id_to_store logged_in_telethon_user_id (user_ids_file b) of
             Inr stored \<Rightarrow>
               reply_text bot_user_id (LoginSuccessful logged_in_telethon_user_id)
                 (b\<lparr>user_ids_file := stored\<rparr>)
           | Inl _ \<Rightarrow> pop_task bot_user_id (reply_text bot_user_id LoginUnexpectedValueError b))
      | Value None \<Rightarrow> pop_task bot_user_id (reply_text bot_user_id LoginFailed b)
      | TimeoutError \<Rightarrow> pop_task bot_user_id (reply_text bot_user_id LoginTimedOut b)
      | Threw e \<Rightarrow>
          if e \<in> {PhoneCodeInvalidError, PhoneNumberInvalidError, PasswordHashInvalidError}
          then pop_task bot_user_id (reply_text bot_user_id (LoginRejected e) b)
          else if e = CancelledError then b
          else pop_task bot_user_id (reply_text bot_user_id (LoginUnexpected e) b))"

definition received_password :: "int \<Rightarrow> string \<Rightarrow> bot \<Rightarrow> py_error + bot \<times> conv_state" where
  "received_password bot_user_id text b =
     (let password = strip text;
          fulfilled =
            (case password_future (user_datas b bot_user_id) of
               Some a \<Rightarrow>
                 if \<not> fut_done b a
                 then (case set_result a (Some password) b of
                         Inl e \<Rightarrow> Inl e
                       | Inr b1 \<Rightarrow> Inr (reply_text bot_user_id PasswordReceived b1))
                 else Inr b
             | None \<Rightarrow> Inr b)
      in case fulfilled of
           Inl e \<Rightarrow> Inl e
         | Inr b1 \<Rightarrow>
             (case current_login_task (user_datas b1 bot_user_id) of
                Some login_task \<Rightarrow>
                  let (b2, r) = wait_for_task login_task b1;
                      b3 = login_outcome bot_user_id r b2
                  in Inr (set_user_data bot_user_id no_user_data b3, END)
              | None \<Rightarrow>
                  Inr (set_user_data bot_user_id no_user_data
                         (reply_text bot_user_id NoLoginTask b1), END)))"

text \<open>
  \<open>cancel_login\<close> has no \<open>await\<close> between the two \<open>set_result\<close> calls, \<open>task.done()\<close> and
  \<open>task.cancel()\<close>, so the task has not run in between: \<open>done()\<close> is what it was when the
  handler started, and the task is still suspended where it was then. When the future it
  waits on has just been fulfilled, \<open>asyncio.wait_for\<close> (as of Python 3.11) catches the
  cancellation and hands the future's result to the callback: the task goes on with that
  result and is not cancelled. Otherwise the cancellation is delivered as in \<open>task_cancel\<close>.
\<close>

definition task_cancel_after_fulfil :: "bot \<Rightarrow> nat \<Rightarrow> bot \<Rightarrow> bot" where
  "task_cancel_after_fulfil b0 tid b =
     (let t = tasks b tid;
          handed_back =
            (case task_state_of b0 tid of
               Running AtCode \<Rightarrow> futures b (t_code_future t) \<noteq> Unset
             | Running AtPassword \<Rightarrow> futures b (t_password_future t) \<noteq> Unset
             | _ \<Rightarrow> False)
      in if handed_back then b else task_cancel tid b)"

definition fulfil_with_none :: "nat option \<Rightarrow> bot \<Rightarrow> py_error + bot" where
  "fulfil_with_none fo b =
     (case fo of
        Some a \<Rightarrow> if \<not> fut_done b a then set_result a None b else Inr b
      | None \<Rightarrow> Inr b)"

definition cancel_login :: "int \<Rightarrow> bot \<Rightarrow> py_error + bot \<times> conv_state" where
  "cancel_login bot_user_id b =
     (let b0 = reply_text bot_user_id LoginCancelled b in
      case fulfil_with_none (code_future (user_datas b0 bot_user_id)) b0 of
        Inl e \<Rightarrow> Inl e
      | Inr b1 \<Rightarrow>
          (case fulfil_with_none (password_future (user_datas b1 bot_user_id)) b1 of
             Inl e \<Rightarrow> Inl e
           | Inr b2 \<Rightarrow>
               let b3 = pop_task bot_user_id b2;
                   b4 = (case active_user_telethon_tasks b2 bot_user_id of
                           Some tid \<Rightarrow>
                             if \<not> task_done b0 tid then task_cancel_after_fulfil b0 tid b3
                             else b3
                         | None \<Rightarrow> b3)
               in Inr (set_user_data bot_user_id no_user_data b4, END)))"

text \<open>
  \<open>logout_command\<close>: after \<open>task.cancel()\<close> it waits up to 5 seconds for the task; every
  way that wait can end is only logged.
\<close>

definition logout_command :: "int \<Rightarrow> bot \<Rightarrow> bot" where
  "logout_command bot_user_id b =
     (let b1 = pop_task bot_user_id b in
      case active_user_telethon_tasks b bot_user_id of
        Some tid \<Rightarrow>
          let b2 = (if \<not> task_done b1 tid then task_cancel tid b1 else b1) in
          if bot_user_id \<in> session_files b2
          then (if os_remove_fails b2 then reply_text bot_user_id LoggedOutRemoveFailed b2
                else reply_text bot_user_id LoggedOutRemoved
                       (b2\<lparr>session_files := session_files b2 - {bot_user_id}\<rparr>))
          else reply_text bot_user_id LoggedOutNoFile b2
      | None \<Rightarrow> reply_text bot_user_id NotLoggedIn b1)"

subsection \<open>Dispatch\<close>

text \<open>
  The handlers as \<open>main\<close> registers them: \<open>/login\<close> is the entry point of the
  conversation, each state has one handler for text that is not a command, \<open>/cancel\<close> is
  the fallback inside a conversation, and \<open>/logout\<close> is handled outside the conversation
  handler. The conversation is kept per user (one chat per user). The idle timeout of the
  conversation (600 seconds, after which it ends without a message) is left out: the
  updates of a trace arrive within it.
\<close>

datatype update = CmdLogin | CmdCancel | CmdLogout | Text string

definition enter :: "int \<Rightarrow> bot \<times> conv_state \<Rightarrow> bot" where
  "enter u r = (fst r)\<lparr>conversation := (conversation (fst r))(u := snd r)\<rparr>"

definition dispatch :: "int \<Rightarrow> update \<Rightarrow> bot \<Rightarrow> py_error + bot" where
  "dispatch u upd b =
     (case (conversation b u, upd) of
        (_, CmdLogout) \<Rightarrow> Inr (logout_command u b)
      | (END, CmdLogin) \<Rightarrow> Inr (enter u (login_entry u b))
      | (END, _) \<Rightarrow> Inr b
      | (_, CmdLogin) \<Rightarrow> Inr b
      | (_, CmdCancel) \<Rightarrow> map_sum id (enter u) (cancel_login u b)
      | (AWAIT_PHONE, Text t) \<Rightarrow> Inr (enter u (received_phone u t b))
      | (AWAIT_CODE, Text t) \<Rightarrow> map_sum id (enter u) (received_code u t b)
      | (AWAIT_PASSWORD, Text t) \<Rightarrow> map_sum id (enter u) (received_password u t b))"

fun run :: "int \<Rightarrow> update list \<Rightarrow> bot \<Rightarrow> py_error + bot" where
  "run u [] b = Inr b"
| "run u (upd # upds) b = (case dispatch u upd b of Inl e \<Rightarrow> Inl e | Inr b1 \<Rightarrow> run u upds b1)"

text \<open>The bot after start-up: nothing registered, no conversation, nothing sent.\<close>

definition start :: "(nat \<Rightarrow> library) \<Rightarrow> bot" where
  "start libs =
     \<lparr>api_configured = True, active_user_telethon_tasks = (\<lambda>_. None),
      tasks = (\<lambda>_. \<lparr>t_owner = 0, t_library = libs 0, t_phone = [], t_code_future = 0,
                    t_password_future = 0, t_cancelled = True\<rparr>),
      task_count = 0, futures = (\<lambda>_. Unset), future_count = 0,
      user_datas = (\<lambda>_. no_user_data), conversation = (\<lambda>_. END), sent = [],
      session_files = {}, user_ids_file = None, libraries = libs, os_remove_fails = False\<rparr>"

text \<open>
  Two libraries for examples: an account that is not authorized yet, accepts the code
  \<open>54321\<close> and needs no password; and the same account once its session is authorized.
\<close>

definition fresh_account :: library where
  "fresh_account =
     \<lparr>connect = Ret True, is_user_authorized = Ret False,
      send_code_request = (\<lambda>_. Ret ()),
      sign_in_code = (\<lambda>_ code. if code = ''54321'' then Ret (Some 42)
                                else Raise PhoneCodeInvalidError),
      sign_in_password = (\<lambda>_. Raise PasswordHashInvalidError),
      get_me = Ret (Some 42), is_user_authorized_again = Ret True,
      save_session = Ret ()\<rparr>"

definition authorized_account :: library where
  "authorized_account = fresh_account\<lparr>is_user_authorized := Ret True\<rparr>"

text \<open>
  The shape of a phone number in words: a plus sign followed by at least seven digits
  and nothing else. (\<open>valid_phone\<close> above is the test as \<open>received_phone\<close> writes it.)
\<close>

definition plus_and_digits :: "string \<Rightarrow> bool" where
  "plus_and_digits s =
     (case s of [] \<Rightarrow> False
      | c # ds \<Rightarrow> c = CHR ''+'' \<and> 7 \<le> length ds \<and> list_all py_isdigit_char ds)"

text \<open>The bot right after \<open>/login\<close> by user 1, and a restarted bot that finds a session file.\<close>

definition asked_for_phone :: bot where
  "asked_for_phone = enter 1 (login_entry 1 (start (\<lambda>_. fresh_account)))"

definition restarted :: bot where
  "restarted = (start (\<lambda>_. fresh_account))\<lparr>session_files := {1}\<rparr>"

text \<open>
  The bot after user 1 has sent a list of updates, starting from start-up. The first
  client the bot creates meets the fresh account, every later one the authorized account
  (the session file of the first login is found).
\<close>

definition after :: "update list \<Rightarrow> bot" where
  "after upds =
     (case run 1 upds (start (\<lambda>n. if n = 0 then fresh_account else authorized_account)) of
        Inr b \<Rightarrow> b
      | Inl _ \<Rightarrow> start (\<lambda>_. fresh_account))"

definition waiting_for_code :: bot where
  "waiting_for_code = after [CmdLogin, Text ''+12345678900'']"

definition code_given :: bot where
  "code_given = after [CmdLogin, Text ''+12345678900'', Text ''54321'']"

definition logged_in :: bot where
  "logged_in = after [CmdLogin, Text ''+12345678900'', Text ''54321'', Text ''none'']"

definition logged_in_twice :: bot where
  "logged_in_twice =
     after [CmdLogin, Text ''+12345678900'', Text ''54321'', Text ''none'',
            CmdLogin, Text ''+12345678900'']"

section \<open>The media relay handler\<close>

text \<open>
  \<open>handle_outgoing_reply\<close> runs once per outgoing message. Each call it awaits and
  each file operation either returns or raises an \<open>Exception\<close> with a message; what
  they do is the environment's matter and is a parameter. The handler's effects are
  recorded as the list of calls it made, in order, and whether the downloaded file is
  still on disk at the end. The status texts are kept without their leading emoji.
\<close>

datatype 'a attempt = Ok 'a | Err string

record message =
  media :: bool

record sender =
  first_name :: "string option"
  last_name :: "string option"
  sender_ident :: int

record event =
  is_reply :: bool
  raw_text :: string
  sender_id :: int
  chat_title :: "string option"

record relay_env =
  r_reply :: "unit attempt"
  r_get_messages :: "message option attempt"
  r_get_sender :: "sender option attempt"
  r_dir_exists :: bool
  r_makedirs :: "unit attempt"
  r_download_media :: "string option attempt"
  r_path_exists :: bool
  r_send_file :: "unit attempt"
  r_edit :: "string \<Rightarrow> unit attempt"
  r_os_remove :: "unit attempt"

datatype action =
    PostStatus
  | EditStatus string
  | Sleep nat
  | DeleteStatus
  | GetMessages
  | GetSender
  | MakeDirs
  | Download
  | SendFile string string
  | RemoveFile string

text \<open>
  The state of one run: the calls so far, whether the status message could be posted
  (\<open>status_msg\<close> is not \<open>None\<close>), and whether the downloaded file is on disk.
\<close>

record relay =
  calls :: "action list"
  status_msg :: bool
  on_disk :: bool

definition did :: "action \<Rightarrow> relay \<Rightarrow> relay" where
  "did a r = r\<lparr>calls := calls r @ [a]\<rparr>"

text \<open>A run ends by returning (\<open>None\<close>) or by raising out of the handler.\<close>

type_synonym relay_end = "relay \<times> string option"

definition fetch_failed_text :: string where
  "fetch_failed_text = ''Error: Could not fetch the replied message.''"

definition not_found_text :: string where
  "not_found_text = ''Error: Could not fetch the replied message (it might have been deleted).''"

definition no_media_text :: string where
  "no_media_text = ''The replied message does not contain media.''"

definition download_failed_text :: "string \<Rightarrow> string" where
  "download_failed_text err = ''Failed to download file: '' @ err"

definition none_path_text :: string where
  "none_path_text = ''Download returned None path, but no error was raised.''"

definition success_text :: string where
  "success_text = ''Media saved to your Saved Messages!''"

definition send_failed_text :: "string \<Rightarrow> string" where
  "send_failed_text send_err = ''Failed to send file to Saved Messages: '' @ send_err"

definition missing_file_text :: string where
  "missing_file_text = ''File not found after download, or download failed silently.''"

text \<open>\<open>if status_msg: await status_msg.edit(text)\<close>, outside any \<open>try\<close> of its own.\<close>

definition edit_status :: "relay_env \<Rightarrow> string \<Rightarrow> relay \<Rightarrow> relay_end" where
  "edit_status env text r =
     (if status_msg r
      then (did (EditStatus text) r, case r_edit env text of Ok _ \<Rightarrow> None | Err m \<Rightarrow> Some m)
      else (r, None))"

text \<open>\<open>await asyncio.sleep(n)\<close>, then \<open>status_msg.delete()\<close> with its failure ignored.\<close>

definition delete_status_after :: "nat \<Rightarrow> relay \<Rightarrow> relay" where
  "delete_status_after n r = (if status_msg r then did DeleteStatus (did (Sleep n) r) else r)"

definition basename :: "string \<Rightarrow> string" where
  "basename p = rev (takeWhile (\<lambda>c. c \<noteq> CHR ''/'') (rev p))"

definition sender_info :: "sender option \<Rightarrow> string" where
  "sender_info media_sender =
     (case media_sender of
        None \<Rightarrow> ''Unknown User''
      | Some s \<Rightarrow>
          (case first_name s of None \<Rightarrow> [] | Some f \<Rightarrow> f)
          @ (case last_name s of None \<Rightarrow> [] | Some l \<Rightarrow> if l = [] then [] else '' '' @ l)
          @ '' (ID: '' @ str_int (sender_ident s) @ '')'')"

definition caption_text :: "string \<Rightarrow> string \<Rightarrow> event \<Rightarrow> string" where
  "caption_text file_name_only sssender_info ev =
     ''Saved: '' @ file_name_only @ [newline]
     @ ''Originally from: '' @ sssender_info @ [newline]
     @ ''Replied in chat: ''
     @ (case chat_title ev of
          None \<Rightarrow> ''DM/Unknown Chat''
        | Some t \<Rightarrow> if t = [] then ''DM/Unknown Chat'' else t)"

text \<open>The \<open>finally\<close> clause: \<open>os.remove\<close>, with an \<open>OSError\<close> only logged.\<close>

definition cleanup :: "relay_env \<Rightarrow> string \<Rightarrow> relay \<Rightarrow> relay" where
  "cleanup env path r =
     (let r1 = did (RemoveFile path) r in
      case r_os_remove env of Ok _ \<Rightarrow> r1\<lparr>on_disk := False\<rparr> | Err _ \<Rightarrow> r1)"

text \<open>
  Lines 182 to 207: the forward step. An exception of \<open>send_file\<close> or of the success
  edit is caught and reported by a second edit; an exception of that second edit leaves
  the handler, after the \<open>finally\<close> clause has run.
\<close>

definition forward :: "relay_env \<Rightarrow> string \<Rightarrow> string \<Rightarrow> relay \<Rightarrow> relay_end" where
  "forward env path caption r =
     (let r1 = did (SendFile path caption) r;
          tried =
            (case r_send_file env of
               Err send_err \<Rightarrow> (r1, Some send_err)
             | Ok _ \<Rightarrow>
                 (case edit_status env success_text r1 of
                    (r2, Some send_err) \<Rightarrow> (r2, Some send_err)
                  | (r2, None) \<Rightarrow> (delete_status_after 10 r2, None)));
          handled =
            (case tried of
               (r3, None) \<Rightarrow> (r3, None)
             | (r3, Some send_err) \<Rightarrow> edit_status env (send_failed_text send_err) r3)
      in (cleanup env path (fst handled), snd handled))"

text \<open>Lines 161 to 211: download, then forward.\<close>

definition download_and_forward :: "relay_env \<Rightarrow> event \<Rightarrow> string \<Rightarrow> relay \<Rightarrow> relay_end" where
  "download_and_forward env ev sssender_info r =
     (let r1 = did Download r;
          downloaded =
            (case r_download_media env of
               Err err \<Rightarrow> Inl err
             | Ok None \<Rightarrow> Inl none_path_text
             | Ok (Some path) \<Rightarrow> if path = [] then Inl none_path_text else Inr path)
      in case downloaded of
           Inl err \<Rightarrow> edit_status env (download_failed_text err) r1
         | Inr downloaded_file_path \<Rightarrow>
             if r_path_exists env
             then forward env downloaded_file_path
                    (caption_text (basename downloaded_file_path) sssender_info ev)
                    (r1\<lparr>on_disk := True\<rparr>)
             else edit_status env missing_file_text r1)"

definition handle_outgoing_reply :: "string \<Rightarrow> int \<Rightarrow> relay_env \<Rightarrow> event \<Rightarrow> relay_end" where
  "handle_outgoing_reply command_trigger my_id env ev =
     (let r0 = \<lparr>calls = [], status_msg = False, on_disk = False\<rparr> in
      if \<not> (is_reply ev \<and> raw_text ev = command_trigger) then (r0, None)
      else if sender_id ev \<noteq> my_id then (r0, None)
      else
        let r1 = (case r_reply env of
                    Ok _ \<Rightarrow> (did PostStatus r0)\<lparr>status_msg := True\<rparr>
                  | Err _ \<Rightarrow> did PostStatus r0);
            r2 = did GetMessages r1
        in case r_get_messages env of
             Err _ \<Rightarrow> edit_status env fetch_failed_text r2
           | Ok None \<Rightarrow> edit_status env not_found_text r2
           | Ok (Some target_message) \<Rightarrow>
               if \<not> media target_message
               then (case edit_status env no_media_text r2 of
                       (r3, Some e) \<Rightarrow> (r3, Some e)
                     | (r3, None) \<Rightarrow> (delete_status_after 5 r3, None))
               else
                 let r3 = did GetSender r2 in
                 case r_get_sender env of
                   Err e \<Rightarrow> (r3, Some e)
                 | Ok media_sender \<Rightarrow>
                     if r_dir_exists env
                     then download_and_forward env ev (sender_info media_sender) r3
                     else (case r_makedirs env of
                             Err e \<Rightarrow> (did MakeDirs r3, Some e)
                           | Ok _ \<Rightarrow>
                               download_and_forward env ev (sender_info media_sender)
                                 (did MakeDirs r3)))"

text \<open>
  The run reached the forward step: the trigger matched, the replied-to message with
  media was fetched, the sender was resolved, and the download gave a path that exists.
\<close>

definition reaches_forward :: "string \<Rightarrow> int \<Rightarrow> relay_env \<Rightarrow> event \<Rightarrow> string \<Rightarrow> bool" where
  "reaches_forward command_trigger my_id env ev path =
     (is_reply ev \<and> raw_text ev = command_trigger \<and> sender_id ev = my_id
      \<and> (case r_get_messages env of Ok (Some m) \<Rightarrow> media m | _ \<Rightarrow> False)
      \<and> (case r_get_sender env of Ok _ \<Rightarrow> True | Err _ \<Rightarrow> False)
      \<and> (r_dir_exists env \<or> r_makedirs env = Ok ())
      \<and> r_download_media env = Ok (Some path) \<and> path \<noteq> [] \<and> r_path_exists env)"

text \<open>An environment in which everything works, for examples.\<close>

definition all_well :: relay_env where
  "all_well =
     \<lparr>r_reply = Ok (), r_get_messages = Ok (Some \<lparr>media = True\<rparr>),
      r_get_sender = Ok (Some \<lparr>first_name = Some ''Ada'', last_name = None, sender_ident = 7\<rparr>),
      r_dir_exists = True, r_makedirs = Ok (),
      r_download_media = Ok (Some ''user_downloads/42/photo.jpg''),
      r_path_exists = True, r_send_file = Ok (), r_edit = (\<lambda>_. Ok ()), r_os_remove = Ok ()\<rparr>"

definition trigger_event :: event where
  "trigger_event = \<lparr>is_reply = True, raw_text = ''.d'', sender_id = 42, chat_title = None\<rparr>"

definition triggered :: "string \<Rightarrow> int \<Rightarrow> event \<Rightarrow> bool" where
  "triggered command_trigger my_id ev =
     (is_reply ev \<and> raw_text ev = command_trigger \<and> sender_id ev = my_id)"

section \<open>Properties of the string primitives and of the id list\<close>

lemma of_char_digit_char: "d < 10 \<Longrightarrow> (of_char (digit_char d) :: nat) = 48 + d"
  by (simp add: digit_char_def)

lemma ascii_digit_digit_char: "d < 10 \<Longrightarrow> ascii_digit (digit_char d)"
  by (simp add: ascii_digit_def of_char_digit_char)

lemma str_nat_digits: "list_all ascii_digit (str_nat n) \<and> str_nat n \<noteq> []"
proof (induction n rule: str_nat.induct)
  case (1 n)
  show ?case
  proof (cases "n < 10")
    case True
    then show ?thesis by (simp add: str_nat.simps[of n] ascii_digit_digit_char)
  next
    case False
    with 1 show ?thesis by (simp add: str_nat.simps[of n] ascii_digit_digit_char)
  qed
qed

lemma nat_of_digits_append:
  "nat_of_digits acc (xs @ ys) =
     (case nat_of_digits acc xs of None \<Rightarrow> None | Some a \<Rightarrow> nat_of_digits a ys)"
  by (induction xs arbitrary: acc) auto

lemma nat_of_digits_str_nat: "nat_of_digits 0 (str_nat n) = Some n"
proof (induction n rule: str_nat.induct)
  case (1 n)
  show ?case
  proof (cases "n < 10")
    case True
    then show ?thesis
      by (simp add: str_nat.simps[of n] ascii_digit_digit_char of_char_digit_char)
  next
    case False
    with 1 show ?thesis
      by (simp add: str_nat.simps[of n] nat_of_digits_append ascii_digit_digit_char of_char_digit_char)
  qed
qed

lemma ascii_digit_not_minus: "ascii_digit c \<Longrightarrow> c \<noteq> CHR ''-''"
  by (auto simp: ascii_digit_def)

lemma ascii_digit_not_space: "ascii_digit c \<Longrightarrow> \<not> py_isspace c"
  by (auto simp: ascii_digit_def py_isspace_def)

lemma str_nat_inj: "str_nat a = str_nat b \<Longrightarrow> a = b"
  by (metis nat_of_digits_str_nat option.inject)

lemma str_nat_hd: "\<exists>c cs. str_nat n = c # cs \<and> ascii_digit c"
  using str_nat_digits[of n] by (cases "str_nat n") auto

lemma str_int_inj: "str_int a = str_int b \<Longrightarrow> a = b"
proof -
  assume e: "str_int a = str_int b"
  obtain c cs where a: "str_nat (nat b) = c # cs" "c \<noteq> CHR ''-''"
    using str_nat_hd[of "nat b"] ascii_digit_not_minus by blast
  obtain d ds where b: "str_nat (nat a) = d # ds" "d \<noteq> CHR ''-''"
    using str_nat_hd[of "nat a"] ascii_digit_not_minus by blast
  show ?thesis
  proof (cases "a < 0")
    case True
    show ?thesis
    proof (cases "b < 0")
      case True
      with \<open>a < 0\<close> e have "str_nat (nat (- a)) = str_nat (nat (- b))" by (simp add: str_int_def)
      then have "nat (- a) = nat (- b)" by (rule str_nat_inj)
      with True \<open>a < 0\<close> show ?thesis by simp
    next
      case False
      with \<open>a < 0\<close> e a show ?thesis by (simp add: str_int_def)
    qed
  next
    case False
    show ?thesis
    proof (cases "b < 0")
      case True
      with \<open>\<not> a < 0\<close> e b show ?thesis by (auto simp: str_int_def)
    next
      case False
      with \<open>\<not> a < 0\<close> e have "str_nat (nat a) = str_nat (nat b)" by (simp add: str_int_def)
      then have "nat a = nat b" by (rule str_nat_inj)
      with False \<open>\<not> a < 0\<close> show ?thesis by simp
    qed
  qed
qed

lemma filter_digits_str_nat: "filter ascii_digit (str_nat n) = str_nat n"
  using str_nat_digits[of n] by (simp add: list_all_iff)

lemma digits_of_str_int: "filter ascii_digit (str_int i) = str_nat (nat \<bar>i\<bar>)"
proof (cases "i < 0")
  case True
  have "\<not> ascii_digit CHR ''-''" by (simp add: ascii_digit_def)
  moreover from True have "nat (- i) = nat \<bar>i\<bar>" by simp
  ultimately show ?thesis using True by (simp add: str_int_def filter_digits_str_nat)
next
  case False
  then show ?thesis by (simp add: str_int_def filter_digits_str_nat)
qed

text \<open>\<open>int\<close> reads back what \<open>str\<close> wrote, within the digit limit.\<close>

lemma py_int_str_int:
  "py_int (str_int i) = (if max_str_digits < length (str_nat (nat \<bar>i\<bar>)) then None else Some i)"
proof (cases "max_str_digits < length (str_nat (nat \<bar>i\<bar>))")
  case True
  then show ?thesis by (simp add: py_int_def digits_of_str_int)
next
  case lim: False
  show ?thesis
  proof (cases "i < 0")
    case True
    then show ?thesis
      using str_nat_digits[of "nat (- i)"] lim
      by (simp add: py_int_def digits_of_str_int) (simp add: str_int_def nat_of_digits_str_nat)
  next
    case False
    obtain c cs where s: "str_nat (nat i) = c # cs" and "ascii_digit c"
      using str_nat_hd[of "nat i"] by blast
    then have "c \<noteq> CHR ''-''" using ascii_digit_not_minus by blast
    with False s lim show ?thesis
      using nat_of_digits_str_nat[of "nat i"]
      by (simp add: py_int_def digits_of_str_int) (simp add: str_int_def)
  qed
qed

lemma py_str_Inr: "py_str v = Inr s \<Longrightarrow> s = str_int v \<and> py_int (str_int v) = Some v"
  by (auto simp: py_str_def py_int_str_int split: if_splits)

lemma py_int_str_int_Some: "py_int (str_int x) = Some y \<Longrightarrow> y = x"
  by (simp add: py_int_str_int split: if_splits)

lemma py_isdigit_str_int: "py_isdigit (str_int i) = (0 \<le> i)"
proof (cases "i < 0")
  case True
  then show ?thesis
    by (simp add: str_int_def py_isdigit_def py_isdigit_char_def ascii_digit_def)
next
  case False
  have "list_all py_isdigit_char (str_nat (nat i))"
    using str_nat_digits[of "nat i"] by (auto simp: list_all_iff py_isdigit_char_def)
  with False show ?thesis
    using str_nat_digits[of "nat i"] by (simp add: str_int_def py_isdigit_def)
qed

lemma str_int_ends: "str_int i \<noteq> [] \<and> \<not> py_isspace (hd (str_int i)) \<and> \<not> py_isspace (last (str_int i))"
proof -
  let ?n = "if i < 0 then nat (- i) else nat i"
  have d: "list_all ascii_digit (str_nat ?n)" and ne: "str_nat ?n \<noteq> []"
    using str_nat_digits[of ?n] by auto
  have h: "\<not> py_isspace (hd (str_nat ?n))" and l: "\<not> py_isspace (last (str_nat ?n))"
    using d ne by (auto simp: list_all_iff intro!: ascii_digit_not_space)
  have m: "\<not> py_isspace CHR ''-''" by (simp add: py_isspace_def)
  show ?thesis using h l m ne by (auto simp: str_int_def)
qed

lemma strip_id_line: "strip (id_line v) = str_int v"
proof -
  obtain c cs where s: "str_int v = c # cs" and c: "\<not> py_isspace c"
    using str_int_ends[of v] by (cases "str_int v") auto
  have l: "\<not> py_isspace (last (c # cs))" using str_int_ends[of v] s by simp
  have nl: "py_isspace newline" by (simp add: py_isspace_def newline_def)
  have "rev (c # cs) \<noteq> []" by simp
  then obtain d ds where r: "rev (c # cs) = d # ds" by (cases "rev (c # cs)") auto
  then have "d = last (c # cs)" by (metis last_rev list.sel(1) rev_rev_ident hd_rev)
  with l have d: "\<not> py_isspace d" by simp
  have "strip (id_line v) = rev (dropWhile py_isspace (newline # rev (c # cs)))"
    using c by (simp add: strip_def id_line_def s)
  also have "\<dots> = rev (d # ds)" using nl d r by simp
  also have "\<dots> = c # cs" using r by (metis rev_rev_ident)
  finally show ?thesis using s by simp
qed

text \<open>The set comprehension over the digit lines: it yields the integers, or raises.\<close>

lemma those_readable:
  "list_all (\<lambda>s. py_int s \<noteq> None) ds \<Longrightarrow> those (map py_int ds) = Some (List.map_filter py_int ds)"
  by (induction ds) (auto simp: List.map_filter_simps)

lemma those_unreadable:
  "\<not> list_all (\<lambda>s. py_int s \<noteq> None) ds \<Longrightarrow> those (map py_int ds) = None"
  by (induction ds) (auto split: option.splits)

lemma strict_sorted_ints: "sorted_wrt (<) (sorted_list_of_set (A :: int set))"
  by (simp add: strict_sorted_iff)

text \<open>The three ways an add ends once \<open>str\<close> has given the id's text.\<close>

lemma add_listed:
  assumes "py_str v = Inr s" "listed v store"
  shows "add_user_id_to_store v store = Inr store"
  using assms py_str_Inr[OF assms(1)]
  by (cases store) (auto simp: add_user_id_to_store_def listed_def Let_def)

lemma add_unreadable:
  assumes "py_str v = Inr s" "\<not> digit_lines_readable store"
  shows "add_user_id_to_store v store = Inr store"
proof (cases store)
  case None
  with assms(2) show ?thesis by (simp add: digit_lines_readable_def digit_lines_def)
next
  case (Some ls)
  with assms(2) have "those (map py_int (filter py_isdigit (map strip ls))) = None"
    by (simp add: digit_lines_readable_def digit_lines_def those_unreadable)
  with Some assms(1) show ?thesis
    by (simp add: add_user_id_to_store_def Let_def)
qed

lemma add_writes:
  assumes "py_str v = Inr s" "\<not> listed v store" "digit_lines_readable store"
  shows "add_user_id_to_store v store
       = Inr (Some (map id_line (sorted_list_of_set (set (digit_line_ids store) \<union> {v}))))"
proof -
  from py_str_Inr[OF assms(1)] have s: "s = str_int v" and r: "py_int (str_int v) = Some v"
    by simp_all
  show ?thesis
  proof (cases store)
    case None
    with assms(1) s r show ?thesis
      by (simp add: add_user_id_to_store_def digit_line_ids_def digit_lines_def
          List.map_filter_simps)
  next
    case (Some ls)
    let ?ds = "filter py_isdigit (map strip ls)"
    from Some assms(3) have t: "those (map py_int ?ds) = Some (List.map_filter py_int ?ds)"
      by (simp add: digit_lines_readable_def digit_lines_def those_readable)
    from Some assms(2) s have n: "s \<notin> set (map strip ls)" by (simp add: listed_def)
    have d: "digit_line_ids store = List.map_filter py_int ?ds"
      using Some by (simp add: digit_line_ids_def digit_lines_def)
    have "add_user_id_to_store v store
        = Inr (Some (map id_line (sorted_list_of_set (set (List.map_filter py_int ?ds) \<union> {v}))))"
      unfolding add_user_id_to_store_def Let_def assms(1) Some
      using n t r s by (simp del: set_map set_filter)
    then show ?thesis by (simp only: d)
  qed
qed

lemma listed_id_lines: "listed v (Some (map id_line ys)) = (v \<in> set ys)"
  by (auto simp: listed_def strip_id_line dest: str_int_inj)

text \<open>Well-kept files: their lines are the texts of a strictly ascending list.\<close>

lemma those_map_eq:
  "those (map f ls) = Some xs \<Longrightarrow> length xs = length ls \<and> (\<forall>i < length ls. f (ls ! i) = Some (xs ! i))"
proof (induction ls arbitrary: xs)
  case Nil
  then show ?case by simp
next
  case (Cons l ls)
  then obtain y ys where y: "f l = Some y" "those (map f ls) = Some ys" "xs = y # ys"
    by (auto split: option.splits)
  with Cons.IH[of ys] show ?case by (auto simp: nth_Cons split: nat.splits)
qed

lemma well_kept_D:
  assumes "well_kept ls"
  shows "\<exists>xs. sorted_wrt (<) xs \<and> ls = map id_line xs \<and> (\<forall>x \<in> set xs. py_int (str_int x) = Some x)"
proof -
  from assms obtain xs where t: "those (map (\<lambda>l. py_int (strip l)) ls) = Some xs"
    and s: "sorted_wrt (<) xs" and l: "ls = map id_line xs"
    by (auto simp: well_kept_def split: option.splits)
  have "\<forall>x \<in> set xs. py_int (str_int x) = Some x"
  proof
    fix x assume "x \<in> set xs"
    then obtain i where i: "i < length xs" "xs ! i = x" by (auto simp: in_set_conv_nth)
    from those_map_eq[OF t] i l have "py_int (strip (id_line x)) = Some x" by auto
    then show "py_int (str_int x) = Some x" by (simp add: strip_id_line)
  qed
  with s l show ?thesis by blast
qed

lemma parse_id_lines:
  "\<forall>x \<in> set xs. py_int (str_int x) = Some x \<Longrightarrow>
   those (map ((\<lambda>l. py_int (strip l)) \<circ> id_line) xs) = Some xs"
  by (induction xs) (auto simp: strip_id_line)

lemma well_kept_id_lines:
  "sorted_wrt (<) xs \<Longrightarrow> \<forall>x \<in> set xs. py_int (str_int x) = Some x \<Longrightarrow> well_kept (map id_line xs)"
  by (simp add: well_kept_def parse_id_lines)

lemma lines_of_id_id_lines:
  "\<forall>x \<in> set xs. py_int (str_int x) = Some x \<Longrightarrow>
   lines_of_id v (Some (map id_line xs)) = length (filter (\<lambda>x. x = v) xs)"
  by (induction xs) (auto simp: lines_of_id_def strip_id_line)

lemma distinct_count_one: "distinct xs \<Longrightarrow> v \<in> set xs \<Longrightarrow> length (filter (\<lambda>x. x = v) xs) = Suc 0"
  by (induction xs) (auto simp: filter_empty_conv)

lemma digit_lines_id_lines:
  "digit_lines (Some (map id_line xs)) = map str_int (filter (\<lambda>x. 0 \<le> x) xs)"
  by (induction xs) (auto simp: digit_lines_def strip_id_line py_isdigit_str_int)

lemma kept_readable:
  assumes "kept store"
  shows "digit_lines_readable store \<and> (\<forall>y \<in> set (digit_line_ids store). py_int (str_int y) = Some y)"
proof (cases store)
  case None
  then show ?thesis
    by (simp add: digit_lines_readable_def digit_line_ids_def digit_lines_def List.map_filter_simps)
next
  case (Some ls)
  with assms obtain xs where xs: "ls = map id_line xs" "\<forall>x \<in> set xs. py_int (str_int x) = Some x"
    using well_kept_D by (auto simp: kept_def)
  have a: "digit_lines_readable store"
    using xs(2) unfolding Some xs(1) digit_lines_readable_def digit_lines_id_lines
    by (auto simp: list_all_iff)
  have b: "\<forall>y \<in> set (digit_line_ids store). py_int (str_int y) = Some y"
    using xs(2) unfolding Some xs(1) digit_line_ids_def digit_lines_id_lines
    by (auto simp: List.map_filter_def dest: py_int_str_int_Some)
  from a b show ?thesis by simp
qed

lemma set_sorted_ids:
  "set (sorted_list_of_set (set xs \<union> {v :: int})) = insert v (set xs)"
proof -
  have "set (sorted_list_of_set (set xs \<union> {v})) = set xs \<union> {v}"
    by (rule set_sorted_list_of_set) simp
  also have "\<dots> = insert v (set xs)" by simp
  finally show ?thesis .
qed

lemma add_kept:
  assumes v: "py_str v = Inr s" and k: "kept store" and r: "add_user_id_to_store v store = Inr store'"
  shows "kept store' \<and> lines_of_id v store' = 1"
proof (cases "listed v store")
  case True
  with v r have e: "store' = store" by (simp add: add_listed)
  from True obtain ls where ls: "store = Some ls" by (cases store) (auto simp: listed_def)
  with k obtain xs where xs: "sorted_wrt (<) xs" "ls = map id_line xs"
      "\<forall>x \<in> set xs. py_int (str_int x) = Some x"
    using well_kept_D by (auto simp: kept_def)
  from True have m: "v \<in> set xs" unfolding ls xs(2) by (simp add: listed_id_lines)
  have d: "distinct xs" using xs(1) by (simp add: strict_sorted_iff)
  have "lines_of_id v store = 1"
    unfolding ls xs(2) using lines_of_id_id_lines[OF xs(3)] distinct_count_one[OF d m] by simp
  with e k show ?thesis by simp
next
  case False
  let ?ys = "sorted_list_of_set (set (digit_line_ids store) \<union> {v})"
  from kept_readable[OF k] have rd: "digit_lines_readable store"
    and ok: "\<forall>y \<in> set (digit_line_ids store). py_int (str_int y) = Some y" by simp_all
  from v False rd r have e: "store' = Some (map id_line ?ys)" by (simp add: add_writes)
  have st: "set ?ys = insert v (set (digit_line_ids store))" by (rule set_sorted_ids)
  have ok': "\<forall>y \<in> set ?ys. py_int (str_int y) = Some y"
    using ok py_str_Inr[OF v] unfolding st by auto
  have d: "distinct ?ys" by (rule distinct_sorted_list_of_set)
  have m: "v \<in> set ?ys" unfolding st by simp
  have "kept store'" unfolding e kept_def using well_kept_id_lines[OF strict_sorted_ints ok'] by simp
  moreover have "lines_of_id v store' = 1"
    unfolding e using lines_of_id_id_lines[OF ok'] distinct_count_one[OF d m] by simp
  ultimately show ?thesis by simp
qed

text \<open>
  Claim C8, as amended. For an id that \<open>str\<close> can convert, an add returns normally and
  \<^item> leaves the file exactly as it was when the id's decimal text is already one of the
    stripped lines;
  \<^item> when it is not, and \<open>int\<close> accepts every line that passes \<open>isdigit\<close>, rewrites the
    file to one integer per line, strictly ascending (sorted and without duplicates),
    holding exactly the id and the integers of the old lines that pass \<open>isdigit\<close>.

  Adding the same id to the result changes nothing. Starting from an absent or a
  well-kept file, the result is well kept and has exactly one line for the id.
\<close>

theorem add_user_id_sorts_when_it_writes:
  assumes "py_str v = Inr s"
  shows "\<exists>store'. add_user_id_to_store v store = Inr store'
       \<and> (listed v store \<longrightarrow> store' = store)
       \<and> (\<not> listed v store \<and> digit_lines_readable store \<longrightarrow>
            (\<exists>ys. store' = Some (map id_line ys) \<and> sorted_wrt (<) ys
                \<and> set ys = insert v (set (digit_line_ids store))))
       \<and> add_user_id_to_store v store' = Inr store'
       \<and> (kept store \<longrightarrow> kept store' \<and> lines_of_id v store' = 1)"
proof -
  let ?ys = "sorted_list_of_set (set (digit_line_ids store) \<union> {v})"
  define store' where
    "store' = (if listed v store \<or> \<not> digit_lines_readable store then store
               else Some (map id_line ?ys))"
  have r: "add_user_id_to_store v store = Inr store'"
    using add_listed[OF assms] add_unreadable[OF assms] add_writes[OF assms]
    by (auto simp: store'_def)
  have a: "listed v store \<longrightarrow> store' = store"
    by (simp add: store'_def)
  have b: "\<not> listed v store \<and> digit_lines_readable store \<longrightarrow>
            (\<exists>ys. store' = Some (map id_line ys) \<and> sorted_wrt (<) ys
                \<and> set ys = insert v (set (digit_line_ids store)))"
  proof
    assume h: "\<not> listed v store \<and> digit_lines_readable store"
    then have "store' = Some (map id_line ?ys)" by (simp add: store'_def)
    moreover have "sorted_wrt (<) ?ys" by (rule strict_sorted_ints)
    moreover have "set ?ys = insert v (set (digit_line_ids store))" by (rule set_sorted_ids)
    ultimately show "\<exists>ys. store' = Some (map id_line ys) \<and> sorted_wrt (<) ys
                \<and> set ys = insert v (set (digit_line_ids store))" by blast
  qed
  have c: "add_user_id_to_store v store' = Inr store'"
  proof (cases "listed v store")
    case True
    then have "store' = store" by (simp add: store'_def)
    with True show ?thesis by (simp add: add_listed[OF assms])
  next
    case False
    show ?thesis
    proof (cases "digit_lines_readable store")
      case False
      then have "store' = store" by (simp add: store'_def)
      with False show ?thesis by (simp add: add_unreadable[OF assms])
    next
      case True
      with \<open>\<not> listed v store\<close> have e: "store' = Some (map id_line ?ys)" by (simp add: store'_def)
      have "listed v store'" unfolding e listed_id_lines set_sorted_ids by simp
      then show ?thesis by (rule add_listed[OF assms])
    qed
  qed
  have d: "kept store \<longrightarrow> kept store' \<and> lines_of_id v store' = 1"
    using add_kept[OF assms _ r] by blast
  from r a b c d show ?thesis by blast
qed

theorem add_user_id_sorts_when_it_writes_witness:
  "py_str 7 = Inr ''7''
   \<and> kept (Some [id_line 5, id_line 12])
   \<and> \<not> listed 7 (Some [id_line 5, id_line 12])
   \<and> digit_lines_readable (Some [id_line 5, id_line 12])
   \<and> (\<exists>store'. add_user_id_to_store 7 (Some [id_line 5, id_line 12]) = Inr store'
         \<and> (\<exists>ys. store' = Some (map id_line ys) \<and> sorted_wrt (<) ys \<and> set ys = {5, 7, 12})
         \<and> add_user_id_to_store 7 store' = Inr store'
         \<and> kept store' \<and> lines_of_id 7 store' = 1)
   \<and> listed 7 (Some [id_line 5, id_line 7, id_line 12])
   \<and> add_user_id_to_store 7 (Some [id_line 5, id_line 7, id_line 12])
       = Inr (Some [id_line 5, id_line 7, id_line 12])"
proof -
  let ?f = "Some [id_line 5, id_line 12]"
  let ?g = "Some [id_line 5, id_line 7, id_line 12]"
  have s: "py_str 7 = Inr ''7''" by code_simp
  have k: "kept ?f" by code_simp
  have n: "\<not> listed 7 ?f" by code_simp
  have r: "digit_lines_readable ?f" by code_simp
  have i: "insert 7 (set (digit_line_ids ?f)) = {5, 7, 12}" by code_simp
  have l: "listed 7 ?g" by code_simp
  from add_user_id_sorts_when_it_writes[OF s, of ?f]
  obtain st where st: "add_user_id_to_store 7 ?f = Inr st"
      "\<not> listed 7 ?f \<and> digit_lines_readable ?f \<longrightarrow>
         (\<exists>ys. st = Some (map id_line ys) \<and> sorted_wrt (<) ys \<and> set ys = {5, 7, 12})"
      "add_user_id_to_store 7 st = Inr st"
      "kept ?f \<longrightarrow> kept st \<and> lines_of_id 7 st = 1"
    unfolding i by (elim exE conjE)
  from st(2) n r
  have ys: "\<exists>ys. st = Some (map id_line ys) \<and> sorted_wrt (<) ys \<and> set ys = {5, 7, 12}"
    by (rule_tac mp) simp_all
  from st(4) k have ks: "kept st \<and> lines_of_id 7 st = 1" by (rule_tac mp) simp_all
  have a: "\<exists>store'. add_user_id_to_store 7 ?f = Inr store'
         \<and> (\<exists>ys. store' = Some (map id_line ys) \<and> sorted_wrt (<) ys \<and> set ys = {5, 7, 12})
         \<and> add_user_id_to_store 7 store' = Inr store'
         \<and> kept store' \<and> lines_of_id 7 store' = 1"
    using st(1,3) ys ks by (intro exI[of _ st] conjI) simp_all
  from add_user_id_sorts_when_it_writes[OF s, of ?g] l
  have b: "add_user_id_to_store 7 ?g = Inr ?g" by auto
  from s k n r a l b show ?thesis by blast
qed

text \<open>
  Claim C8 as stated fails for a file that already lists the id and is not well kept:
  nothing is written, so the file \<open>12, 5\<close> stays unsorted after adding 5, and the file
  \<open>5, 5\<close> keeps its two lines for 5. It also fails for a file with a line that passes
  \<open>isdigit\<close> and is refused by \<open>int\<close> (the superscript two): the add leaves that file as it
  was, without the id.
\<close>

theorem listed_id_leaves_file_unsorted:
  "add_user_id_to_store 5 (Some [id_line 12, id_line 5]) = Inr (Some [id_line 12, id_line 5])
   \<and> \<not> kept (Some [id_line 12, id_line 5])
   \<and> add_user_id_to_store 5 (Some [id_line 5, id_line 5]) = Inr (Some [id_line 5, id_line 5])
   \<and> lines_of_id 5 (Some [id_line 5, id_line 5]) = 2
   \<and> py_isdigit [char_of (178 :: nat)]
   \<and> add_user_id_to_store 5 (Some [[char_of (178 :: nat), newline]])
       = Inr (Some [[char_of (178 :: nat), newline]])
   \<and> lines_of_id 5 (Some [[char_of (178 :: nat), newline]]) = 0"
proof -
  have a: "add_user_id_to_store 5 (Some [id_line 12, id_line 5]) = Inr (Some [id_line 12, id_line 5])"
    by code_simp
  have b: "\<not> kept (Some [id_line 12, id_line 5])" by code_simp
  have c: "add_user_id_to_store 5 (Some [id_line 5, id_line 5]) = Inr (Some [id_line 5, id_line 5])"
    by code_simp
  have d: "lines_of_id 5 (Some [id_line 5, id_line 5]) = 2" by code_simp
  have e: "py_isdigit [char_of (178 :: nat)]" by code_simp
  have f: "add_user_id_to_store 5 (Some [[char_of (178 :: nat), newline]])
       = Inr (Some [[char_of (178 :: nat), newline]])" by code_simp
  have g: "lines_of_id 5 (Some [[char_of (178 :: nat), newline]]) = 0" by code_simp
  from a b c d e f g show ?thesis by blast
qed

section \<open>Properties of the account session task\<close>

lemma outer_except_not_suspended: "snd (outer_except c e) \<noteq> Suspended w"
  by (simp add: outer_except_def)

lemma finish_login_suspended:
  "snd (finish_login lib c me) = Suspended w \<Longrightarrow> w = AtLibrary"
  by (auto simp: finish_login_def await_def outer_except_def split: outcome.splits if_splits)

lemma password_step_suspended:
  "snd (password_step lib c pw) = Suspended w \<Longrightarrow>
     w = AtLibrary \<or> (w = AtPassword \<and> pw = Pending)"
  by (auto simp: password_step_def await_def outer_except_def
      split: outcome.splits option.splits if_splits dest: finish_login_suspended)

lemma login_except_suspended:
  "snd (login_except lib c pw e) = Suspended w \<Longrightarrow>
     w = AtLibrary \<or> (w = AtPassword \<and> pw = Pending)"
  by (auto simp: login_except_def outer_except_def split: if_splits
      dest: password_step_suspended)

lemma code_step_suspended:
  "snd (code_step lib c phone cb pw) = Suspended w \<Longrightarrow>
     w = AtLibrary \<or> (w = AtPassword \<and> pw = Pending)
     \<or> (w = AtCode \<and> cb = Pending \<and> send_code_request lib phone = Ret ())"
  by (auto simp: code_step_def await_def split: outcome.splits option.splits
      dest: login_except_suspended finish_login_suspended)

lemma run_suspended:
  assumes "snd (run_user_instance lib phone cb pw) = Suspended w"
  shows "w = AtLibrary \<or> (w = AtPassword \<and> pw = Pending)
     \<or> (w = AtCode \<and> cb = Pending \<and> reaches_code lib phone)"
proof (cases "connect lib")
  case (Ret ok)
  show ?thesis
  proof (cases ok)
    case False
    with Ret assms show ?thesis by (simp add: run_user_instance_def await_def)
  next
    case True
    note ok = this
    show ?thesis
    proof (cases "is_user_authorized lib")
      case (Ret a)
      show ?thesis
      proof (cases a)
        case True
        with Ret \<open>connect lib = Ret ok\<close> ok assms show ?thesis
          by (auto simp: run_user_instance_def await_def Let_def outer_except_not_suspended
              split: outcome.splits dest: finish_login_suspended)
      next
        case False
        with Ret \<open>connect lib = Ret ok\<close> ok assms
        have "snd (code_step lib (new_client\<lparr>connected := True\<rparr>) phone cb pw) = Suspended w"
          by (simp add: run_user_instance_def await_def Let_def)
        from code_step_suspended[OF this] Ret False \<open>connect lib = Ret ok\<close> ok
        show ?thesis by (auto simp: reaches_code_def)
      qed
    next
      case (Raise e)
      with \<open>connect lib = Ret ok\<close> ok assms show ?thesis
        by (simp add: run_user_instance_def await_def Let_def outer_except_def split: if_splits)
    next
      case Pending
      with \<open>connect lib = Ret ok\<close> ok assms show ?thesis
        by (simp add: run_user_instance_def await_def Let_def)
    qed
  qed
next
  case (Raise e)
  with assms show ?thesis
    by (simp add: run_user_instance_def await_def outer_except_def split: if_splits)
next
  case Pending
  with assms show ?thesis by (simp add: run_user_instance_def await_def)
qed

lemma run_at_code:
  assumes "reaches_code lib phone"
  shows "run_user_instance lib phone Pending pw = (new_client\<lparr>connected := True\<rparr>, Suspended AtCode)"
    and "run_user_instance lib phone (Ret None) pw = (new_client, Returned None)"
    and "run_user_instance lib phone (Raise CancelledError) pw
           = (new_client\<lparr>connected := True\<rparr>, Raised CancelledError)"
  using assms
  by (simp_all add: reaches_code_def run_user_instance_def code_step_def await_def Let_def
      disconnect_def new_client_def login_except_def outer_except_def)

lemma outer_except_disconnects:
  "e \<noteq> CancelledError \<Longrightarrow> \<not> connected (fst (outer_except c e))"
  by (simp add: outer_except_def disconnect_def)

lemma finish_login_disconnects:
  assumes "is_user_authorized_again lib \<noteq> Raise CancelledError" "save_session lib \<noteq> Raise CancelledError"
    and "ended_before_watch (finish_login lib c me)"
  shows "\<not> connected (fst (finish_login lib c me))"
  using assms
  by (auto simp: finish_login_def await_def ended_before_watch_def disconnect_def outer_except_def
      split: outcome.splits if_splits)

lemma finish_login_disconnects_nc:
  assumes "never_cancelled lib cb pw" "ended_before_watch (finish_login lib c me)"
  shows "\<not> connected (fst (finish_login lib c me))"
  using assms(1) by (intro finish_login_disconnects[OF _ _ assms(2)]) (simp_all add: never_cancelled_def)

lemma password_step_disconnects:
  assumes "never_cancelled lib cb pw" "ended_before_watch (password_step lib c pw)"
  shows "\<not> connected (fst (password_step lib c pw))"
proof (cases pw)
  case (Ret up)
  show ?thesis
  proof (cases up)
    case None
    with Ret show ?thesis by (simp add: password_step_def await_def disconnect_def)
  next
    case (Some p)
    have nc: "sign_in_password lib p \<noteq> Raise CancelledError"
      using assms(1) by (simp add: never_cancelled_def)
    show ?thesis
    proof (cases "sign_in_password lib p")
      case (Ret me)
      with \<open>pw = Ret up\<close> Some assms(2) finish_login_disconnects_nc[OF assms(1), of c me]
      show ?thesis
        by (simp add: password_step_def await_def)
    next
      case (Raise e)
      with \<open>pw = Ret up\<close> Some nc show ?thesis
        by (auto simp: password_step_def await_def disconnect_def outer_except_def)
    next
      case Pending
      with \<open>pw = Ret up\<close> Some assms(2) show ?thesis
        by (simp add: password_step_def await_def ended_before_watch_def)
    qed
  qed
next
  case (Raise e)
  with assms show ?thesis
    by (auto simp: password_step_def await_def never_cancelled_def intro!: outer_except_disconnects)
next
  case Pending
  with assms(2) show ?thesis by (simp add: password_step_def await_def ended_before_watch_def)
qed

lemma login_except_disconnects:
  assumes "never_cancelled lib cb pw" "e \<noteq> CancelledError"
    and "ended_before_watch (login_except lib c pw e)"
  shows "\<not> connected (fst (login_except lib c pw e))"
  using assms password_step_disconnects[OF assms(1), of c]
  by (auto simp: login_except_def outer_except_def disconnect_def split: if_splits)

lemma code_step_disconnects:
  assumes nc: "never_cancelled lib cb pw" and e: "ended_before_watch (code_step lib c phone cb pw)"
  shows "\<not> connected (fst (code_step lib c phone cb pw))"
proof -
  have le: "\<And>x. x \<noteq> CancelledError \<Longrightarrow> ended_before_watch (login_except lib c pw x)
      \<Longrightarrow> \<not> connected (fst (login_except lib c pw x))"
    using login_except_disconnects[OF nc] by blast
  have fl: "\<And>me. ended_before_watch (finish_login lib c me) \<Longrightarrow> \<not> connected (fst (finish_login lib c me))"
    using finish_login_disconnects_nc[OF nc] by blast
  show ?thesis
  proof (cases "send_code_request lib phone")
    case (Ret u)
    show ?thesis
    proof (cases cb)
      case (Ret uc)
      show ?thesis
      proof (cases uc)
        case None
        with Ret \<open>send_code_request lib phone = Ret u\<close> show ?thesis
          by (simp add: code_step_def await_def disconnect_def)
      next
        case (Some code)
        have "sign_in_code lib phone code \<noteq> Raise CancelledError"
          using nc by (simp add: never_cancelled_def)
        with Some Ret \<open>send_code_request lib phone = Ret u\<close> e le fl show ?thesis
          by (cases "sign_in_code lib phone code")
             (auto simp: code_step_def await_def ended_before_watch_def)
      qed
    next
      case (Raise x)
      with nc have "x \<noteq> CancelledError" by (auto simp: never_cancelled_def)
      with Raise \<open>send_code_request lib phone = Ret u\<close> e le show ?thesis
        by (simp add: code_step_def await_def)
    next
      case Pending
      with \<open>send_code_request lib phone = Ret u\<close> e show ?thesis
        by (simp add: code_step_def await_def ended_before_watch_def)
    qed
  next
    case (Raise x)
    with nc have "x \<noteq> CancelledError" by (auto simp: never_cancelled_def)
    with Raise e le show ?thesis by (simp add: code_step_def await_def)
  next
    case Pending
    with e show ?thesis by (simp add: code_step_def await_def ended_before_watch_def)
  qed
qed

text \<open>
  Every run in which no await raises \<open>CancelledError\<close> and that ends before the watch
  phase leaves the client disconnected.
\<close>

lemma run_disconnects:
  assumes nc: "never_cancelled lib cb pw"
    and e: "ended_before_watch (run_user_instance lib phone cb pw)"
  shows "\<not> connected (fst (run_user_instance lib phone cb pw))"
proof -
  have fl: "\<And>c me. ended_before_watch (finish_login lib c me) \<Longrightarrow> \<not> connected (fst (finish_login lib c me))"
    using finish_login_disconnects_nc[OF nc] by blast
  have oe: "\<And>c x. x \<noteq> CancelledError \<Longrightarrow> \<not> connected (fst (outer_except c x))"
    by (rule outer_except_disconnects)
  have n1: "connect lib \<noteq> Raise CancelledError" "is_user_authorized lib \<noteq> Raise CancelledError"
    "get_me lib \<noteq> Raise CancelledError"
    using nc by (simp_all add: never_cancelled_def)
  show ?thesis
  proof (cases "connect lib")
    case (Ret ok)
    show ?thesis
    proof (cases ok)
      case False
      with Ret show ?thesis by (simp add: run_user_instance_def await_def new_client_def)
    next
      case True
      show ?thesis
      proof (cases "is_user_authorized lib")
        case (Ret a)
        show ?thesis
        proof (cases a)
          case False
          with Ret True \<open>connect lib = Ret ok\<close> e code_step_disconnects[OF nc] show ?thesis
            by (simp add: run_user_instance_def await_def Let_def)
        next
          case True
          with Ret \<open>ok\<close> \<open>connect lib = Ret ok\<close> e n1(3) fl oe show ?thesis
            by (cases "get_me lib")
               (auto simp: run_user_instance_def await_def Let_def ended_before_watch_def)
        qed
      next
        case (Raise x)
        with n1(2) True \<open>connect lib = Ret ok\<close> oe show ?thesis
          by (auto simp: run_user_instance_def await_def Let_def)
      next
        case Pending
        with True \<open>connect lib = Ret ok\<close> e show ?thesis
          by (simp add: run_user_instance_def await_def Let_def ended_before_watch_def)
      qed
    qed
  next
    case (Raise x)
    with n1(1) oe show ?thesis by (auto simp: run_user_instance_def await_def)
  next
    case Pending
    with e show ?thesis by (simp add: run_user_instance_def await_def ended_before_watch_def)
  qed
qed

text \<open>
  Claim C3 at a failing input. The task of a fresh account is suspended at the code
  rendezvous with its connection up. Cancelled there, \<open>wait_for\<close> raises
  \<open>CancelledError\<close> into the callback and on into \<open>run_user_instance\<close>, where no
  \<open>except\<close> clause matches it: the task ends before the watch phase, and the client is
  still connected.
\<close>

theorem cancelled_code_wait_keeps_connection:
  "run_user_instance fresh_account ''+12345678900'' Pending Pending
     = (\<lparr>connected = True, session_saved = False, watching = False\<rparr>, Suspended AtCode)
   \<and> run_user_instance fresh_account ''+12345678900''
        (get_code_from_bot_callback WaitCancelled) Pending
     = (\<lparr>connected = True, session_saved = False, watching = False\<rparr>, Raised CancelledError)
   \<and> ended_before_watch (run_user_instance fresh_account ''+12345678900''
        (get_code_from_bot_callback WaitCancelled) Pending)"
  by (simp add: fresh_account_def get_code_from_bot_callback_def run_user_instance_def
      code_step_def await_def Let_def new_client_def login_except_def outer_except_def
      ended_before_watch_def)

section \<open>Properties of the media relay handler\<close>

lemma cleanup_calls:
  "calls (cleanup env path r) = calls r @ [RemoveFile path]
   \<and> (r_os_remove env = Ok () \<longrightarrow> \<not> on_disk (cleanup env path r))"
  by (simp add: cleanup_def did_def Let_def split: attempt.splits)

lemma forward_shape:
  "\<exists>mid. calls (fst (forward env path cap r)) = calls r @ [SendFile path cap] @ mid @ [RemoveFile path]"
proof (cases "r_send_file env")
  case (Err m)
  then show ?thesis
    by (simp add: forward_def Let_def cleanup_def did_def edit_status_def split: attempt.splits)
next
  case (Ok u)
  show ?thesis
  proof (cases "status_msg r")
    case False
    with Ok show ?thesis
      by (simp add: forward_def Let_def cleanup_def did_def edit_status_def delete_status_after_def
          split: attempt.splits)
  next
    case True
    with Ok show ?thesis
      by (cases "r_edit env success_text")
         (simp_all add: forward_def Let_def cleanup_def did_def edit_status_def delete_status_after_def
          split: attempt.splits)
  qed
qed

lemma forward_removes:
  "r_os_remove env = Ok () \<Longrightarrow> \<not> on_disk (fst (forward env path cap r))"
  by (simp add: forward_def Let_def cleanup_calls)

lemma forward_success:
  assumes "r_send_file env = Ok ()" "status_msg r" "r_edit env success_text = Ok ()"
  shows "snd (forward env path cap r) = None
       \<and> calls (fst (forward env path cap r))
         = calls r @ [SendFile path cap, EditStatus success_text, Sleep 10, DeleteStatus, RemoveFile path]"
  using assms
  by (simp add: forward_def Let_def cleanup_def did_def edit_status_def delete_status_after_def
      split: attempt.splits)

lemma handle_reaches_forward:
  assumes "reaches_forward command_trigger my_id env ev path"
  shows "\<exists>r cap. handle_outgoing_reply command_trigger my_id env ev = forward env path cap r
                \<and> status_msg r = (r_reply env = Ok ())"
proof -
  from assms obtain m s where
    t: "is_reply ev" "raw_text ev = command_trigger" "sender_id ev = my_id"
    and g: "r_get_messages env = Ok (Some m)" "media m"
    and gs: "r_get_sender env = Ok s"
    and d: "r_dir_exists env \<or> r_makedirs env = Ok ()"
    and dl: "r_download_media env = Ok (Some path)" "path \<noteq> []" "r_path_exists env"
    by (auto simp: reaches_forward_def split: attempt.splits option.splits)
  have df0: "\<And>r. download_and_forward env ev (sender_info s) r
      = forward env path (caption_text (basename path) (sender_info s) ev)
          ((did Download r)\<lparr>on_disk := True\<rparr>)"
    using dl by (simp add: download_and_forward_def Let_def)
  have df: "\<And>r. \<exists>r' cap. download_and_forward env ev (sender_info s) r = forward env path cap r'
                \<and> status_msg r' = status_msg r"
  proof -
    fix r
    have "status_msg ((did Download r)\<lparr>on_disk := True\<rparr>) = status_msg r"
      by (simp add: did_def)
    with df0[of r] show "\<exists>r' cap. download_and_forward env ev (sender_info s) r = forward env path cap r'
                \<and> status_msg r' = status_msg r" by blast
  qed
  show ?thesis
  proof (cases "r_dir_exists env")
    case True
    let ?r3 = "did GetSender (did GetMessages (case r_reply env of
                    Ok _ \<Rightarrow> (did PostStatus \<lparr>calls = [], status_msg = False, on_disk = False\<rparr>)\<lparr>status_msg := True\<rparr>
                  | Err _ \<Rightarrow> did PostStatus \<lparr>calls = [], status_msg = False, on_disk = False\<rparr>))"
    have h: "handle_outgoing_reply command_trigger my_id env ev = download_and_forward env ev (sender_info s) ?r3"
      using t g gs True by (simp add: handle_outgoing_reply_def Let_def)
    have st: "status_msg ?r3 = (r_reply env = Ok ())"
      by (simp add: did_def split: attempt.splits)
    from df[of ?r3] h st show ?thesis by metis
  next
    case False
    with d have mk: "r_makedirs env = Ok ()" by simp
    let ?r3 = "did MakeDirs (did GetSender (did GetMessages (case r_reply env of
                    Ok _ \<Rightarrow> (did PostStatus \<lparr>calls = [], status_msg = False, on_disk = False\<rparr>)\<lparr>status_msg := True\<rparr>
                  | Err _ \<Rightarrow> did PostStatus \<lparr>calls = [], status_msg = False, on_disk = False\<rparr>)))"
    have h: "handle_outgoing_reply command_trigger my_id env ev = download_and_forward env ev (sender_info s) ?r3"
      using t g gs False mk by (simp add: handle_outgoing_reply_def Let_def)
    have st: "status_msg ?r3 = (r_reply env = Ok ())"
      by (simp add: did_def split: attempt.splits)
    from df[of ?r3] h st show ?thesis by metis
  qed
qed

text \<open>
  Claim C9. A run that reaches the forward step calls \<open>os.remove\<close> on the downloaded
  file as its last call, after \<open>send_file\<close>, whether forwarding succeeded or failed; when
  \<open>os.remove\<close> itself succeeds the file is gone. When forwarding succeeds, the status
  message was posted and the success edit goes through, the run ends with the success
  edit, a sleep of 10 seconds, the deletion of the status message and the removal of the
  file, and returns normally.
\<close>

theorem forward_always_cleans_up:
  assumes "reaches_forward command_trigger my_id env ev path"
  shows "(\<exists>pre cap mid. calls (fst (handle_outgoing_reply command_trigger my_id env ev))
            = pre @ [SendFile path cap] @ mid @ [RemoveFile path])
       \<and> (r_os_remove env = Ok () \<longrightarrow> \<not> on_disk (fst (handle_outgoing_reply command_trigger my_id env ev)))
       \<and> (r_send_file env = Ok () \<and> r_reply env = Ok () \<and> r_edit env success_text = Ok ()
            \<longrightarrow> snd (handle_outgoing_reply command_trigger my_id env ev) = None
              \<and> (\<exists>pre cap. calls (fst (handle_outgoing_reply command_trigger my_id env ev))
                   = pre @ [SendFile path cap, EditStatus success_text, Sleep 10, DeleteStatus,
                            RemoveFile path]))"
proof -
  obtain r cap where h: "handle_outgoing_reply command_trigger my_id env ev = forward env path cap r"
    and st: "status_msg r = (r_reply env = Ok ())"
    using handle_reaches_forward[OF assms] by blast
  have a: "\<exists>pre cap mid. calls (fst (handle_outgoing_reply command_trigger my_id env ev))
            = pre @ [SendFile path cap] @ mid @ [RemoveFile path]"
    unfolding h using forward_shape[of env path cap r] by blast
  have b: "r_os_remove env = Ok () \<longrightarrow> \<not> on_disk (fst (handle_outgoing_reply command_trigger my_id env ev))"
    unfolding h by (simp add: forward_removes)
  have c: "r_send_file env = Ok () \<and> r_reply env = Ok () \<and> r_edit env success_text = Ok ()
            \<longrightarrow> snd (handle_outgoing_reply command_trigger my_id env ev) = None
              \<and> (\<exists>pre cap. calls (fst (handle_outgoing_reply command_trigger my_id env ev))
                   = pre @ [SendFile path cap, EditStatus success_text, Sleep 10, DeleteStatus,
                            RemoveFile path])"
  proof (intro impI)
    assume s: "r_send_file env = Ok () \<and> r_reply env = Ok () \<and> r_edit env success_text = Ok ()"
    then have "status_msg r" using st by simp
    with s have "snd (forward env path cap r) = None
       \<and> calls (fst (forward env path cap r))
         = calls r @ [SendFile path cap, EditStatus success_text, Sleep 10, DeleteStatus, RemoveFile path]"
      using forward_success[of env r path cap] by simp
    then show "snd (handle_outgoing_reply command_trigger my_id env ev) = None
              \<and> (\<exists>pre cap. calls (fst (handle_outgoing_reply command_trigger my_id env ev))
                   = pre @ [SendFile path cap, EditStatus success_text, Sleep 10, DeleteStatus,
                            RemoveFile path])"
      unfolding h by blast
  qed
  show ?thesis using a b c by blast
qed

theorem forward_always_cleans_up_witness:
  "reaches_forward ''.d'' 42 (all_well\<lparr>r_send_file := Err ''flood''\<rparr>) trigger_event
      ''user_downloads/42/photo.jpg''
   \<and> \<not> on_disk (fst (handle_outgoing_reply ''.d'' 42 (all_well\<lparr>r_send_file := Err ''flood''\<rparr>) trigger_event))
   \<and> reaches_forward ''.d'' 42 all_well trigger_event ''user_downloads/42/photo.jpg''
   \<and> \<not> on_disk (fst (handle_outgoing_reply ''.d'' 42 all_well trigger_event))
   \<and> snd (handle_outgoing_reply ''.d'' 42 all_well trigger_event) = None"
proof -
  let ?env = "all_well\<lparr>r_send_file := Err ''flood''\<rparr>"
  have f: "reaches_forward ''.d'' 42 ?env trigger_event ''user_downloads/42/photo.jpg''"
    by (simp add: reaches_forward_def all_well_def trigger_event_def)
  have g: "reaches_forward ''.d'' 42 all_well trigger_event ''user_downloads/42/photo.jpg''"
    by (simp add: reaches_forward_def all_well_def trigger_event_def)
  have e: "r_os_remove ?env = Ok ()" "r_os_remove all_well = Ok ()" "r_send_file all_well = Ok ()"
    "r_reply all_well = Ok ()" "r_edit all_well success_text = Ok ()"
    by (simp_all add: all_well_def)
  from forward_always_cleans_up[OF f] forward_always_cleans_up[OF g] e f g
  show ?thesis by blast
qed

text \<open>
  Claim C4. The claim fails where the sender is resolved for the attribution:
  \<open>get_sender\<close> is awaited outside every \<open>try\<close> (every other awaited call of the handler is
  inside one). When it raises on a triggering event, the exception leaves the handler
  right after the call, and the status message, posted before, is never edited.
\<close>

theorem sender_error_leaves_handler:
  "triggered ''.d'' 42 trigger_event
   \<and> handle_outgoing_reply ''.d'' 42 (all_well\<lparr>r_get_sender := Err ''boom''\<rparr>) trigger_event
     = (\<lparr>calls = [PostStatus, GetMessages, GetSender], status_msg = True, on_disk = False\<rparr>,
        Some ''boom'')"
  by (simp add: triggered_def trigger_event_def all_well_def handle_outgoing_reply_def Let_def did_def)

section \<open>Properties of the bot\<close>

lemma valid_phone_iff: "valid_phone s = plus_and_digits s"
  by (cases s) (auto simp: valid_phone_def plus_and_digits_def startswith_plus_def py_isdigit_def)

text \<open>
  Claim C10. When no registry entry exists for the user, \<open>/logout\<close> only sends the
  "not logged in" message: nothing else of the bot changes, and in particular the
  session files are what they were, also when the user's session file exists.
\<close>

theorem logout_without_entry_keeps_session_file:
  assumes "active_user_telethon_tasks b u = None"
  shows "logout_command u b = b\<lparr>sent := sent b @ [(u, NotLoggedIn)]\<rparr>
       \<and> session_files (logout_command u b) = session_files b"
proof -
  have "pop_task u b = b" using assms by (simp add: pop_task_def fun_upd_idem)
  then show ?thesis using assms by (simp add: logout_command_def Let_def reply_text_def)
qed

theorem logout_without_entry_keeps_session_file_witness:
  "active_user_telethon_tasks restarted 1 = None
   \<and> 1 \<in> session_files restarted
   \<and> logout_command 1 restarted = restarted\<lparr>sent := sent restarted @ [(1, NotLoggedIn)]\<rparr>
   \<and> 1 \<in> session_files (logout_command 1 restarted)
   \<and> sent (logout_command 1 restarted) = [(1, NotLoggedIn)]"
proof -
  have h: "active_user_telethon_tasks restarted 1 = None" by (simp add: restarted_def start_def)
  have s: "session_files restarted = {1}" "sent restarted = []" by (simp_all add: restarted_def start_def)
  from logout_without_entry_keeps_session_file[OF h] h s show ?thesis by simp
qed

lemma received_phone_invalid:
  "\<not> plus_and_digits (strip t) \<Longrightarrow> received_phone u t b = (reply_text u InvalidPhone b, AWAIT_PHONE)"
  by (simp add: received_phone_def Let_def valid_phone_iff)

lemma received_phone_valid:
  "plus_and_digits (strip t) \<Longrightarrow> snd (received_phone u t b) = AWAIT_CODE"
  by (simp add: received_phone_def Let_def valid_phone_iff split: prod.splits)

text \<open>
  Claim C7, as amended. \<open>received_phone\<close> strips the text first: the handshake advances
  to \<open>AWAIT_CODE\<close> exactly when the stripped text is a plus sign followed by at least
  seven digits, and otherwise stays in \<open>AWAIT_PHONE\<close>, where the only effect is the
  re-prompt.
\<close>

theorem phone_advances_iff_stripped_shape:
  "snd (received_phone u t b) = (if plus_and_digits (strip t) then AWAIT_CODE else AWAIT_PHONE)
   \<and> (\<not> plus_and_digits (strip t) \<longrightarrow> fst (received_phone u t b) = reply_text u InvalidPhone b)
   \<and> (conversation b u = AWAIT_PHONE \<longrightarrow>
        (\<exists>b'. dispatch u (Text t) b = Inr b'
           \<and> conversation b' u = (if plus_and_digits (strip t) then AWAIT_CODE else AWAIT_PHONE)))"
proof -
  have a: "snd (received_phone u t b) = (if plus_and_digits (strip t) then AWAIT_CODE else AWAIT_PHONE)"
    by (simp add: received_phone_invalid received_phone_valid)
  have c: "conversation b u = AWAIT_PHONE \<longrightarrow>
        (\<exists>b'. dispatch u (Text t) b = Inr b'
           \<and> conversation b' u = (if plus_and_digits (strip t) then AWAIT_CODE else AWAIT_PHONE))"
    using a by (auto simp: dispatch_def enter_def)
  show ?thesis using a c by (simp add: received_phone_invalid)
qed

lemma conv_asked: "conversation asked_for_phone 1 = AWAIT_PHONE"
  by (simp add: asked_for_phone_def enter_def login_entry_def start_def reply_text_def)

theorem phone_advances_iff_stripped_shape_witness:
  "conversation asked_for_phone 1 = AWAIT_PHONE
   \<and> plus_and_digits (strip '' +1234567 '')
   \<and> snd (received_phone 1 '' +1234567 '' asked_for_phone) = AWAIT_CODE
   \<and> \<not> plus_and_digits (strip ''+123456'')
   \<and> snd (received_phone 1 ''+123456'' asked_for_phone) = AWAIT_PHONE
   \<and> fst (received_phone 1 ''+123456'' asked_for_phone) = reply_text 1 InvalidPhone asked_for_phone
   \<and> (\<exists>b'. dispatch 1 (Text ''+123456'') asked_for_phone = Inr b' \<and> conversation b' 1 = AWAIT_PHONE)"
proof -
  have p: "plus_and_digits (strip '' +1234567 '')" by code_simp
  have q: "\<not> plus_and_digits (strip ''+123456'')" by code_simp
  from phone_advances_iff_stripped_shape[of 1 "'' +1234567 ''" asked_for_phone]
    phone_advances_iff_stripped_shape[of 1 "''+123456''" asked_for_phone] p q conv_asked
  show ?thesis by simp
qed

text \<open>
  Claim C7 as stated fails: a text with a leading space does not start with a plus
  sign, yet it advances the handshake.
\<close>

theorem padded_phone_advances:
  "\<not> plus_and_digits '' +1234567''
   \<and> conversation asked_for_phone 1 = AWAIT_PHONE
   \<and> snd (received_phone 1 '' +1234567'' asked_for_phone) = AWAIT_CODE"
proof -
  have "\<not> plus_and_digits '' +1234567''" by (simp add: plus_and_digits_def)
  moreover have "plus_and_digits (strip '' +1234567'')" by code_simp
  ultimately show ?thesis using conv_asked by (simp add: received_phone_valid)
qed

section \<open>Properties of the login handshake\<close>

subsection \<open>A wait that is handed \<open>None\<close>\<close>

lemma password_step_none: "password_step lib c (Ret None) = (disconnect c, Returned None)"
  by (simp add: password_step_def await_def)

lemma login_except_at_password:
  "snd (login_except lib c Pending e) = Suspended AtPassword \<Longrightarrow>
   login_except lib c (Ret None) e = (disconnect c, Returned None)"
  by (auto simp: login_except_def password_step_none outer_except_not_suspended split: if_splits)

lemma code_step_at_password:
  assumes "snd (code_step lib c phone cb Pending) = Suspended AtPassword"
    and "cb' = cb \<or> cb = Pending"
  shows "code_step lib c phone cb' (Ret None) = (disconnect c, Returned None)"
proof (cases "send_code_request lib phone")
  case (Ret u)
  show ?thesis
  proof (cases cb)
    case Pending
    with Ret assms(1) show ?thesis by (simp add: code_step_def await_def)
  next
    case (Raise e)
    with assms(2) have c: "cb' = Raise e" by simp
    from Ret Raise assms(1) have "snd (login_except lib c Pending e) = Suspended AtPassword"
      by (simp add: code_step_def await_def)
    from login_except_at_password[OF this] Ret c show ?thesis
      by (simp add: code_step_def await_def)
  next
    case r: (Ret uc)
    with assms(2) have c: "cb' = Ret uc" by simp
    show ?thesis
    proof (cases uc)
      case None
      with Ret c show ?thesis by (simp add: code_step_def await_def)
    next
      case (Some code)
      show ?thesis
      proof (cases "sign_in_code lib phone code")
        case (Ret me)
        with \<open>send_code_request lib phone = Ret u\<close> r Some assms(1)
        have "snd (finish_login lib c me) = Suspended AtPassword"
          by (simp add: code_step_def await_def)
        from finish_login_suspended[OF this] show ?thesis by simp
      next
        case (Raise e)
        with \<open>send_code_request lib phone = Ret u\<close> r Some assms(1)
        have "snd (login_except lib c Pending e) = Suspended AtPassword"
          by (simp add: code_step_def await_def)
        from login_except_at_password[OF this] \<open>send_code_request lib phone = Ret u\<close> c Some Raise
        show ?thesis by (simp add: code_step_def await_def)
      next
        case Pending
        with \<open>send_code_request lib phone = Ret u\<close> r Some assms(1) show ?thesis
          by (simp add: code_step_def await_def)
      qed
    qed
  qed
next
  case (Raise e)
  with assms(1) have "snd (login_except lib c Pending e) = Suspended AtPassword"
    by (simp add: code_step_def await_def)
  from login_except_at_password[OF this] Raise show ?thesis
    by (simp add: code_step_def await_def)
next
  case Pending
  with assms(1) show ?thesis by (simp add: code_step_def await_def)
qed

lemma run_at_password:
  assumes "snd (run_user_instance lib phone cb Pending) = Suspended AtPassword"
    and "cb' = cb \<or> cb = Pending"
  shows "run_user_instance lib phone cb' (Ret None) = (new_client, Returned None)"
proof (cases "connect lib")
  case (Ret ok)
  show ?thesis
  proof (cases ok)
    case False
    with Ret assms(1) show ?thesis by (simp add: run_user_instance_def await_def)
  next
    case True
    note ok = this
    show ?thesis
    proof (cases "is_user_authorized lib")
      case (Ret a)
      show ?thesis
      proof (cases a)
        case True
        with Ret \<open>connect lib = Ret ok\<close> ok assms(1) show ?thesis
          by (auto simp: run_user_instance_def await_def Let_def outer_except_not_suspended
              split: outcome.splits dest: finish_login_suspended)
      next
        case False
        with Ret \<open>connect lib = Ret ok\<close> ok assms(1)
        have "snd (code_step lib (new_client\<lparr>connected := True\<rparr>) phone cb Pending)
              = Suspended AtPassword"
          by (simp add: run_user_instance_def await_def Let_def)
        from code_step_at_password[OF this assms(2)] Ret False \<open>connect lib = Ret ok\<close> ok
        show ?thesis
          by (simp add: run_user_instance_def await_def Let_def disconnect_def new_client_def)
      qed
    next
      case (Raise e)
      with \<open>connect lib = Ret ok\<close> ok assms(1) show ?thesis
        by (simp add: run_user_instance_def await_def Let_def outer_except_not_suspended)
    next
      case Pending
      with \<open>connect lib = Ret ok\<close> ok assms(1) show ?thesis
        by (simp add: run_user_instance_def await_def Let_def)
    qed
  qed
next
  case (Raise e)
  with assms(1) show ?thesis
    by (simp add: run_user_instance_def await_def outer_except_not_suspended)
next
  case Pending
  with assms(1) show ?thesis by (simp add: run_user_instance_def await_def)
qed

subsection \<open>Futures and tasks under the handlers\<close>

lemma callback_pending:
  "get_code_from_bot_callback (wait_for f) = Pending \<longleftrightarrow> f = Unset"
  "get_password_from_bot_callback (wait_for f) = Pending \<longleftrightarrow> f = Unset"
  by (cases f; simp add: get_code_from_bot_callback_def get_password_from_bot_callback_def wait_for_def)+

lemma task_state_running:
  "task_state_of b tid = Running w \<longleftrightarrow>
     \<not> t_cancelled (tasks b tid) \<and> snd (task_run b (tasks b tid)) = Suspended w"
  by (auto simp: task_state_of_def split: result.splits)

lemma running_at_code_unset:
  "task_state_of b tid = Running AtCode \<Longrightarrow> futures b (t_code_future (tasks b tid)) = Unset"
proof -
  assume "task_state_of b tid = Running AtCode"
  then have "snd (task_run b (tasks b tid)) = Suspended AtCode"
    by (simp add: task_state_running)
  from run_suspended[OF this[unfolded task_run_def]]
  show ?thesis by (simp add: callback_pending)
qed

lemma running_at_password_unset:
  "task_state_of b tid = Running AtPassword \<Longrightarrow> futures b (t_password_future (tasks b tid)) = Unset"
proof -
  assume "task_state_of b tid = Running AtPassword"
  then have "snd (task_run b (tasks b tid)) = Suspended AtPassword"
    by (simp add: task_state_running)
  from run_suspended[OF this[unfolded task_run_def]]
  show ?thesis by (simp add: callback_pending)
qed

lemma task_cancel_keeps_done:
  assumes "fut_done b a"
  shows "futures (task_cancel tid b) a = futures b a"
proof (cases "task_state_of b tid")
  case (Running w)
  then show ?thesis
    using assms running_at_code_unset[of b tid] running_at_password_unset[of b tid]
    by (cases w) (auto simp: task_cancel_def Let_def fut_done_def)
qed (simp_all add: task_cancel_def Let_def)

lemma task_cancel_after_fulfil_keeps_done:
  "fut_done b a \<Longrightarrow> futures (task_cancel_after_fulfil b0 tid b) a = futures b a"
  by (simp add: task_cancel_after_fulfil_def Let_def task_cancel_keeps_done)

lemma task_cancel_frame:
  "sent (task_cancel tid b) = sent b"
  "user_datas (task_cancel tid b) = user_datas b"
  "active_user_telethon_tasks (task_cancel tid b) = active_user_telethon_tasks b"
  "session_files (task_cancel tid b) = session_files b"
  "user_ids_file (task_cancel tid b) = user_ids_file b"
  "conversation (task_cancel tid b) = conversation b"
  "t_cancelled (tasks (task_cancel tid b) tid)"
  by (simp_all add: task_cancel_def Let_def)

lemma set_result_Inr:
  "\<not> fut_done b a \<Longrightarrow> set_result a v b = Inr (b\<lparr>futures := (futures b)(a := Result v)\<rparr>)"
  by (simp add: set_result_def fut_done_def)

lemma fulfil_with_none_eq:
  "fulfil_with_none fo b =
     Inr (case fo of None \<Rightarrow> b
          | Some a \<Rightarrow> if fut_done b a then b else b\<lparr>futures := (futures b)(a := Result None)\<rparr>)"
  by (simp add: fulfil_with_none_def set_result_Inr split: option.splits)

lemma fulfil_keeps_done:
  "fut_done b x \<Longrightarrow> fulfil_with_none fo b = Inr b' \<Longrightarrow> futures b' x = futures b x"
  by (auto simp: fulfil_with_none_eq split: option.splits if_splits)

lemma login_outcome_futures: "futures (login_outcome u r b) = futures b"
  by (simp add: login_outcome_def reply_text_def pop_task_def
      split: awaited.splits option.splits sum.splits)

lemma wait_for_task_keeps_done:
  "fut_done b x \<Longrightarrow> futures (fst (wait_for_task tid b)) x = futures b x"
  by (simp add: wait_for_task_def task_cancel_keeps_done split: task_state.splits)

lemma received_code_keeps:
  assumes "fut_done b x"
  shows "\<exists>b'. received_code u t b = Inr (b', AWAIT_PASSWORD) \<and> futures b' x = futures b x"
  using assms
  by (auto simp: received_code_def Let_def set_result_Inr reply_text_def fut_done_def
      split: option.splits)

lemma received_password_keeps:
  assumes "fut_done b x"
  shows "\<exists>b'. received_password u t b = Inr (b', END) \<and> futures b' x = futures b x"
proof -
  define b1 where "b1 = (case password_future (user_datas b u) of
               Some a \<Rightarrow> if \<not> fut_done b a
                 then reply_text u PasswordReceived (b\<lparr>futures := (futures b)(a := Result (Some (strip t)))\<rparr>)
                 else b
             | None \<Rightarrow> b)"
  have f1: "futures b1 x = futures b x"
    using assms by (auto simp: b1_def reply_text_def fut_done_def split: option.splits)
  then have d1: "fut_done b1 x" using assms by (simp add: fut_done_def)
  have e: "received_password u t b =
      (case current_login_task (user_datas b1 u) of
         Some login_task \<Rightarrow>
           let (b2, r) = wait_for_task login_task b1; b3 = login_outcome u r b2
           in Inr (set_user_data u no_user_data b3, END)
       | None \<Rightarrow> Inr (set_user_data u no_user_data (reply_text u NoLoginTask b1), END))"
    by (simp add: received_password_def Let_def b1_def set_result_Inr split: option.splits)
  show ?thesis
  proof (cases "current_login_task (user_datas b1 u)")
    case None
    with e f1 show ?thesis by (simp add: set_user_data_def reply_text_def)
  next
    case (Some lt)
    with e wait_for_task_keeps_done[OF d1, of lt] f1 show ?thesis
      by (simp add: Let_def split_beta set_user_data_def login_outcome_futures)
  qed
qed

lemma cancel_login_keeps:
  assumes "fut_done b x"
  shows "\<exists>b'. cancel_login u b = Inr (b', END) \<and> futures b' x = futures b x"
proof -
  let ?b0 = "reply_text u LoginCancelled b"
  obtain b1 where b1: "fulfil_with_none (code_future (user_datas ?b0 u)) ?b0 = Inr b1"
    by (simp add: fulfil_with_none_eq)
  obtain b2 where b2: "fulfil_with_none (password_future (user_datas b1 u)) b1 = Inr b2"
    by (simp add: fulfil_with_none_eq)
  have d0: "fut_done ?b0 x" using assms by (simp add: fut_done_def reply_text_def)
  have f1: "futures b1 x = futures b x"
    using fulfil_keeps_done[OF d0 b1] by (simp add: reply_text_def)
  then have d1: "fut_done b1 x" using assms by (simp add: fut_done_def)
  have f2: "futures b2 x = futures b x" using fulfil_keeps_done[OF d1 b2] f1 by simp
  then have d3: "fut_done (pop_task u b2) x" using assms by (simp add: fut_done_def pop_task_def)
  have f3: "futures (pop_task u b2) x = futures b x" using f2 by (simp add: pop_task_def)
  show ?thesis
    using b1 b2 f3 task_cancel_after_fulfil_keeps_done[OF d3]
    by (auto simp: cancel_login_def Let_def set_user_data_def split: option.splits)
qed

lemma task_state_reply: "task_state_of (reply_text u m b) tid = task_state_of b tid"
  by (simp add: task_state_of_def task_run_def reply_text_def)

lemma task_done_reply: "task_done (reply_text u m b) tid = task_done b tid"
  by (simp add: task_done_def task_state_reply)

lemma task_state_cancelled: "t_cancelled (tasks b tid) \<Longrightarrow> task_state_of b tid = TaskCancelled"
  by (simp add: task_state_of_def)

lemma not_done_running: "\<not> task_done b tid \<Longrightarrow> \<exists>w. task_state_of b tid = Running w"
  by (cases "task_state_of b tid") (simp_all add: task_done_def)

lemma callback_none:
  "get_code_from_bot_callback (wait_for (Result None)) = Ret None"
  "get_password_from_bot_callback (wait_for (Result None)) = Ret None"
  by (simp_all add: get_code_from_bot_callback_def get_password_from_bot_callback_def wait_for_def)

lemma callback_unset:
  "get_code_from_bot_callback (wait_for Unset) = Pending"
  "get_password_from_bot_callback (wait_for Unset) = Pending"
  by (simp_all add: get_code_from_bot_callback_def get_password_from_bot_callback_def wait_for_def)

lemma task_cancel_after_fulfil_frame:
  "active_user_telethon_tasks (task_cancel_after_fulfil b0 tid b) = active_user_telethon_tasks b"
  "user_datas (task_cancel_after_fulfil b0 tid b) = user_datas b"
  "sent (task_cancel_after_fulfil b0 tid b) = sent b"
  by (simp_all add: task_cancel_after_fulfil_def Let_def task_cancel_frame)

text \<open>
  A task that waited for a future which has now been fulfilled with \<open>None\<close>, while the
  other futures are as they were or were fulfilled with \<open>None\<close> too, ends without an
  identity.
\<close>

lemma handed_back_done:
  assumes run: "task_state_of b tid = Running w"
    and t: "tasks b' tid = tasks b tid"
    and g: "\<forall>x. futures b' x = futures b x \<or> (futures b x = Unset \<and> futures b' x = Result None)"
    and h: "(w = AtCode \<and> futures b' (t_code_future (tasks b tid)) \<noteq> Unset)
          \<or> (w = AtPassword \<and> futures b' (t_password_future (tasks b tid)) \<noteq> Unset)"
  shows "task_state_of b' tid = Finished None"
proof -
  let ?t = "tasks b tid"
  let ?cf = "t_code_future ?t" and ?pf = "t_password_future ?t"
  from run have nc: "\<not> t_cancelled ?t"
    and s: "snd (task_run b ?t) = Suspended w" by (simp_all add: task_state_running)
  have "task_run b' ?t = (new_client, Returned None)"
  proof (cases "w = AtCode")
    case True
    with run have u: "futures b ?cf = Unset" by (simp add: running_at_code_unset)
    from True h have "futures b' ?cf \<noteq> Unset" by simp
    with g u have v: "futures b' ?cf = Result None" by metis
    from run_suspended[OF s[unfolded task_run_def]] True
    have "reaches_code (t_library ?t) (t_phone ?t)" by simp
    from run_at_code(2)[OF this] v show ?thesis by (simp add: task_run_def callback_none)
  next
    case False
    with h have w: "w = AtPassword" and n: "futures b' ?pf \<noteq> Unset" by auto
    from w run have u: "futures b ?pf = Unset" by (simp add: running_at_password_unset)
    with g n have v: "futures b' ?pf = Result None" by metis
    let ?cb = "get_code_from_bot_callback (wait_for (futures b ?cf))"
    let ?cb' = "get_code_from_bot_callback (wait_for (futures b' ?cf))"
    from s w u have p: "snd (run_user_instance (t_library ?t) (t_phone ?t) ?cb Pending)
        = Suspended AtPassword"
      by (simp add: task_run_def callback_unset)
    have "?cb' = ?cb \<or> ?cb = Pending"
      using g[rule_format, of ?cf] by (auto simp: callback_pending)
    from run_at_password[OF p this] v show ?thesis by (simp add: task_run_def callback_none)
  qed
  with nc t show ?thesis by (simp add: task_state_of_def)
qed

lemma cancel_login_effect:
  "\<exists>b'. cancel_login u b = Inr (b', END)
     \<and> (\<forall>a. code_future (user_datas b u) = Some a \<or> password_future (user_datas b u) = Some a \<longrightarrow>
           futures b' a = (if futures b a = Unset then Result None else futures b a))
     \<and> active_user_telethon_tasks b' = (active_user_telethon_tasks b)(u := None)
     \<and> (\<forall>tid. active_user_telethon_tasks b u = Some tid \<and> \<not> task_done b tid \<longrightarrow>
           task_done b' tid)
     \<and> user_datas b' = (user_datas b)(u := no_user_data)
     \<and> sent b' = sent b @ [(u, LoginCancelled)]"
proof -
  let ?b0 = "reply_text u LoginCancelled b"
  let ?cf = "code_future (user_datas b u)"
  let ?pf = "password_future (user_datas b u)"
  define b1 where "b1 = (case ?cf of None \<Rightarrow> ?b0
          | Some a \<Rightarrow> if fut_done ?b0 a then ?b0 else ?b0\<lparr>futures := (futures ?b0)(a := Result None)\<rparr>)"
  define b2 where "b2 = (case ?pf of None \<Rightarrow> b1
          | Some a \<Rightarrow> if fut_done b1 a then b1 else b1\<lparr>futures := (futures b1)(a := Result None)\<rparr>)"
  define b3 where "b3 = pop_task u b2"
  define b4 where "b4 = (case active_user_telethon_tasks b2 u of
                           Some tid \<Rightarrow>
                             if \<not> task_done ?b0 tid then task_cancel_after_fulfil ?b0 tid b3
                             else b3
                         | None \<Rightarrow> b3)"
  have u0: "user_datas ?b0 = user_datas b" by (simp add: reply_text_def)
  have e1: "fulfil_with_none (code_future (user_datas ?b0 u)) ?b0 = Inr b1"
    by (simp add: fulfil_with_none_eq b1_def u0)
  have ud1: "user_datas b1 = user_datas b" "sent b1 = sent b @ [(u, LoginCancelled)]"
    "active_user_telethon_tasks b1 = active_user_telethon_tasks b" "tasks b1 = tasks b"
    by (simp_all add: b1_def reply_text_def split: option.splits)
  have e2: "fulfil_with_none (password_future (user_datas b1 u)) b1 = Inr b2"
    by (simp add: fulfil_with_none_eq b2_def ud1)
  have ud2: "user_datas b2 = user_datas b" "sent b2 = sent b @ [(u, LoginCancelled)]"
    "active_user_telethon_tasks b2 = active_user_telethon_tasks b" "tasks b2 = tasks b"
    by (simp_all add: b2_def ud1 split: option.splits)
  have res: "cancel_login u b = Inr (set_user_data u no_user_data b4, END)"
    unfolding b4_def b3_def by (simp add: cancel_login_def Let_def e1 e2)
  have f1: "\<And>a. ?cf = Some a \<Longrightarrow> futures b1 a = (if futures b a = Unset then Result None else futures b a)"
    by (simp add: b1_def fut_done_def reply_text_def)
  have f1': "\<And>x. fut_done b x \<Longrightarrow> futures b1 x = futures b x"
    by (auto simp: b1_def fut_done_def reply_text_def split: option.splits)
  have g1: "\<And>x. futures b1 x = futures b x \<or> (futures b x = Unset \<and> futures b1 x = Result None)"
    by (auto simp: b1_def fut_done_def reply_text_def split: option.splits)
  have g2: "\<And>x. futures b2 x = futures b x \<or> (futures b x = Unset \<and> futures b2 x = Result None)"
  proof -
    fix x
    have "futures b2 x = futures b1 x \<or> (futures b1 x = Unset \<and> futures b2 x = Result None)"
      by (auto simp: b2_def fut_done_def split: option.splits)
    with g1[of x] show "futures b2 x = futures b x \<or> (futures b x = Unset \<and> futures b2 x = Result None)"
      by auto
  qed
  have f2: "\<And>a. ?cf = Some a \<or> ?pf = Some a \<Longrightarrow>
      futures b2 a = (if futures b a = Unset then Result None else futures b a)"
  proof -
    fix a assume h: "?cf = Some a \<or> ?pf = Some a"
    show "futures b2 a = (if futures b a = Unset then Result None else futures b a)"
    proof (cases "?pf = Some a")
      case True
      then show ?thesis
        using f1[of a] f1'[of a]
        by (cases "?cf") (auto simp: b2_def fut_done_def b1_def reply_text_def)
    next
      case False
      with h have c: "?cf = Some a" by simp
      from False f1[OF c] show ?thesis
        by (auto simp: b2_def fut_done_def split: option.splits)
    qed
  qed
  have d2: "\<And>a. ?cf = Some a \<or> ?pf = Some a \<Longrightarrow> fut_done b3 a"
    using f2 by (simp add: b3_def pop_task_def fut_done_def)
  have f4: "\<And>a. ?cf = Some a \<or> ?pf = Some a \<Longrightarrow> futures b4 a = futures b2 a"
  proof -
    fix a assume h: "?cf = Some a \<or> ?pf = Some a"
    have "futures b3 a = futures b2 a" by (simp add: b3_def pop_task_def)
    then show "futures b4 a = futures b2 a"
      using task_cancel_after_fulfil_keeps_done[OF d2[OF h]]
      by (simp add: b4_def split: option.splits)
  qed
  have reg: "active_user_telethon_tasks b4 = (active_user_telethon_tasks b)(u := None)"
    by (simp add: b4_def b3_def pop_task_def task_cancel_after_fulfil_frame ud2 split: option.splits)
  have ud4: "user_datas b4 = user_datas b" "sent b4 = sent b @ [(u, LoginCancelled)]"
    by (simp_all add: b4_def b3_def pop_task_def task_cancel_after_fulfil_frame ud2 split: option.splits)
  have canc: "\<And>tid. active_user_telethon_tasks b u = Some tid \<Longrightarrow> \<not> task_done b tid \<Longrightarrow>
      task_done (set_user_data u no_user_data b4) tid"
  proof -
    fix tid assume r: "active_user_telethon_tasks b u = Some tid" and n: "\<not> task_done b tid"
    from n obtain w where w: "task_state_of b tid = Running w" using not_done_running by blast
    have b4: "b4 = task_cancel_after_fulfil ?b0 tid b3"
      using r n by (simp add: b4_def ud2 task_done_reply)
    let ?hb = "(w = AtCode \<and> futures b3 (t_code_future (tasks b3 tid)) \<noteq> Unset)
          \<or> (w = AtPassword \<and> futures b3 (t_password_future (tasks b3 tid)) \<noteq> Unset)"
    have t3: "tasks b3 = tasks b" "futures b3 = futures b2"
      by (simp_all add: b3_def pop_task_def ud2)
    show "task_done (set_user_data u no_user_data b4) tid"
    proof (cases ?hb)
      case True
      then have e: "b4 = b3"
        unfolding b4 by (cases w) (auto simp: task_cancel_after_fulfil_def Let_def task_state_reply w)
      have "task_state_of (set_user_data u no_user_data b4) tid = Finished None"
      proof (rule handed_back_done[OF w])
        show "tasks (set_user_data u no_user_data b4) tid = tasks b tid"
          by (simp add: e t3 set_user_data_def)
        show "\<forall>x. futures (set_user_data u no_user_data b4) x = futures b x
                \<or> (futures b x = Unset \<and> futures (set_user_data u no_user_data b4) x = Result None)"
          using g2 by (simp add: e t3 set_user_data_def)
        show "(w = AtCode \<and> futures (set_user_data u no_user_data b4) (t_code_future (tasks b tid)) \<noteq> Unset)
          \<or> (w = AtPassword
              \<and> futures (set_user_data u no_user_data b4) (t_password_future (tasks b tid)) \<noteq> Unset)"
          using True by (simp add: e t3 set_user_data_def)
      qed
      then show ?thesis by (simp add: task_done_def)
    next
      case False
      then have e: "b4 = task_cancel tid b3"
        unfolding b4 by (cases w) (auto simp: task_cancel_after_fulfil_def Let_def task_state_reply w)
      have "t_cancelled (tasks (set_user_data u no_user_data b4) tid)"
        by (simp add: e set_user_data_def task_cancel_frame)
      then show ?thesis by (simp add: task_done_def task_state_cancelled)
    qed
  qed
  show ?thesis
    using res f2 f4 reg canc ud4
    by (simp add: set_user_data_def)
qed

lemma received_code_sets:
  assumes "code_future (user_datas b u) = Some a" "\<not> fut_done b a"
  shows "\<exists>b'. received_code u t b = Inr (b', AWAIT_PASSWORD) \<and> futures b' a = Result (Some (strip t))"
  using assms by (simp add: received_code_def Let_def set_result_Inr reply_text_def)

lemma received_password_sets:
  assumes "password_future (user_datas b u) = Some a" "\<not> fut_done b a"
  shows "\<exists>b'. received_password u t b = Inr (b', END) \<and> futures b' a = Result (Some (strip t))"
proof -
  define b1 where
    "b1 = reply_text u PasswordReceived (b\<lparr>futures := (futures b)(a := Result (Some (strip t)))\<rparr>)"
  have f1: "futures b1 a = Result (Some (strip t))" by (simp add: b1_def reply_text_def)
  then have d1: "fut_done b1 a" by (simp add: fut_done_def)
  have e: "received_password u t b =
      (case current_login_task (user_datas b1 u) of
         Some login_task \<Rightarrow>
           let (b2, r) = wait_for_task login_task b1; b3 = login_outcome u r b2
           in Inr (set_user_data u no_user_data b3, END)
       | None \<Rightarrow> Inr (set_user_data u no_user_data (reply_text u NoLoginTask b1), END))"
    using assms unfolding b1_def by (simp add: received_password_def Let_def set_result_Inr)
  show ?thesis
  proof (cases "current_login_task (user_datas b1 u)")
    case None
    with e f1 show ?thesis by (simp add: set_user_data_def reply_text_def)
  next
    case (Some lt)
    with e wait_for_task_keeps_done[OF d1, of lt] f1 show ?thesis
      by (simp add: Let_def split_beta set_user_data_def login_outcome_futures)
  qed
qed

lemma cancel_login_sets:
  assumes "code_future (user_datas b u) = Some a \<or> password_future (user_datas b u) = Some a"
    and "\<not> fut_done b a"
  shows "\<exists>b'. cancel_login u b = Inr (b', END) \<and> futures b' a = Result None"
  using cancel_login_effect[of u b] assms by (auto simp: fut_done_def)

text \<open>
  Claim C2. A rendezvous future that is done (fulfilled, or cancelled by a wait that
  timed out) is left as it is by every handler that fulfils futures: \<open>received_code\<close>,
  \<open>received_password\<close> and \<open>cancel_login\<close> return normally, so no \<open>InvalidStateError\<close> is
  raised, and the future holds what it held. A future of the user that is still unset
  is fulfilled by them: the code future by \<open>received_code\<close> and the password future by
  \<open>received_password\<close> with the stripped text, either of them by \<open>cancel_login\<close> with
  \<open>None\<close>. So a future is fulfilled once, by the first attempt.
\<close>

theorem rendezvous_fulfilled_at_most_once:
  "(fut_done b a \<longrightarrow>
       (\<exists>b'. received_code u t b = Inr (b', AWAIT_PASSWORD) \<and> futures b' a = futures b a)
     \<and> (\<exists>b'. received_password u t b = Inr (b', END) \<and> futures b' a = futures b a)
     \<and> (\<exists>b'. cancel_login u b = Inr (b', END) \<and> futures b' a = futures b a))
   \<and> (\<not> fut_done b a \<and> code_future (user_datas b u) = Some a \<longrightarrow>
       (\<exists>b'. received_code u t b = Inr (b', AWAIT_PASSWORD)
           \<and> futures b' a = Result (Some (strip t))))
   \<and> (\<not> fut_done b a \<and> password_future (user_datas b u) = Some a \<longrightarrow>
       (\<exists>b'. received_password u t b = Inr (b', END)
           \<and> futures b' a = Result (Some (strip t))))
   \<and> (\<not> fut_done b a
        \<and> (code_future (user_datas b u) = Some a \<or> password_future (user_datas b u) = Some a) \<longrightarrow>
       (\<exists>b'. cancel_login u b = Inr (b', END) \<and> futures b' a = Result None))"
  using received_code_keeps[of b a u t] received_password_keeps[of b a u t]
    cancel_login_keeps[of b a u] received_code_sets[of b u a t]
    received_password_sets[of b u a t] cancel_login_sets[of b u a]
  by blast

theorem rendezvous_fulfilled_at_most_once_witness:
  "fut_done code_given 0
   \<and> (\<exists>b'. received_code 1 ''99999'' code_given = Inr (b', AWAIT_PASSWORD)
          \<and> futures b' 0 = Result (Some ''54321''))
   \<and> (\<exists>b'. received_password 1 ''secret'' code_given = Inr (b', END)
          \<and> futures b' 0 = Result (Some ''54321''))
   \<and> (\<exists>b'. cancel_login 1 code_given = Inr (b', END) \<and> futures b' 0 = Result (Some ''54321''))
   \<and> \<not> fut_done waiting_for_code 0
   \<and> code_future (user_datas waiting_for_code 1) = Some 0
   \<and> (\<exists>b'. received_code 1 ''54321'' waiting_for_code = Inr (b', AWAIT_PASSWORD)
          \<and> futures b' 0 = Result (Some ''54321''))
   \<and> (\<exists>b'. cancel_login 1 waiting_for_code = Inr (b', END) \<and> futures b' 0 = Result None)
   \<and> \<not> fut_done waiting_for_code 1
   \<and> password_future (user_datas waiting_for_code 1) = Some 1
   \<and> (\<exists>b'. received_password 1 ''secret'' waiting_for_code = Inr (b', END)
          \<and> futures b' 1 = Result (Some ''secret''))"
proof -
  have g: "fut_done code_given 0" by code_simp
  have gv: "futures code_given 0 = Result (Some ''54321'')" by code_simp
  have w0: "\<not> fut_done waiting_for_code 0" by code_simp
  have w1: "\<not> fut_done waiting_for_code 1" by code_simp
  have wc: "code_future (user_datas waiting_for_code 1) = Some 0" by code_simp
  have wp: "password_future (user_datas waiting_for_code 1) = Some 1" by code_simp
  have s1: "strip ''54321'' = ''54321''" by code_simp
  have s2: "strip ''secret'' = ''secret''" by code_simp
  from rendezvous_fulfilled_at_most_once[of code_given 0 1 "''99999''"] g gv
  have a: "\<exists>b'. received_code 1 ''99999'' code_given = Inr (b', AWAIT_PASSWORD)
          \<and> futures b' 0 = Result (Some ''54321'')"
    and c: "\<exists>b'. cancel_login 1 code_given = Inr (b', END) \<and> futures b' 0 = Result (Some ''54321'')"
    by simp_all
  from rendezvous_fulfilled_at_most_once[of code_given 0 1 "''secret''"] g gv
  have b: "\<exists>b'. received_password 1 ''secret'' code_given = Inr (b', END)
          \<and> futures b' 0 = Result (Some ''54321'')"
    by simp
  from rendezvous_fulfilled_at_most_once[of waiting_for_code 0 1 "''54321''"] w0 wc s1
  have d: "\<exists>b'. received_code 1 ''54321'' waiting_for_code = Inr (b', AWAIT_PASSWORD)
          \<and> futures b' 0 = Result (Some ''54321'')"
    and e: "\<exists>b'. cancel_login 1 waiting_for_code = Inr (b', END) \<and> futures b' 0 = Result None"
    by simp_all
  from rendezvous_fulfilled_at_most_once[of waiting_for_code 1 1 "''secret''"] w1 wp s2
  have f: "\<exists>b'. received_password 1 ''secret'' waiting_for_code = Inr (b', END)
          \<and> futures b' 1 = Result (Some ''secret'')"
    by simp
  from g a b c w0 wc d e w1 wp f show ?thesis by blast
qed









subsection \<open>The code wait times out\<close>

text \<open>
  Claim C5. User 1 has sent \<open>/login\<close> and a phone number, and then nothing: the task
  waits for the code. When the 300 seconds of the wait pass, the task ends without an
  identity and with the client disconnected, as the claim says. The bot, however, sends
  nothing: the messages are the three sent before, the conversation still waits for the
  code, and the registry still holds the ended task. Only two further texts of the user
  bring the report of the failed login.
\<close>

theorem code_timeout_is_not_reported:
  "task_state_of waiting_for_code 0 = Running AtCode
   \<and> sent waiting_for_code = [(1, AskPhone), (1, Attempting ''+12345678900''), (1, AskCode)]
   \<and> task_state_of (code_wait_times_out 0 waiting_for_code) 0 = Finished None
   \<and> \<not> connected (fst (task_run (code_wait_times_out 0 waiting_for_code)
                           (tasks (code_wait_times_out 0 waiting_for_code) 0)))
   \<and> sent (code_wait_times_out 0 waiting_for_code)
       = [(1, AskPhone), (1, Attempting ''+12345678900''), (1, AskCode)]
   \<and> conversation (code_wait_times_out 0 waiting_for_code) 1 = AWAIT_CODE
   \<and> active_user_telethon_tasks (code_wait_times_out 0 waiting_for_code) 1 = Some 0
   \<and> map_sum id sent (run 1 [Text ''54321''] (code_wait_times_out 0 waiting_for_code))
       = Inr [(1, AskPhone), (1, Attempting ''+12345678900''), (1, AskCode),
              (1, CodeAlreadyProcessed)]
   \<and> map_sum id sent
         (run 1 [Text ''54321'', Text ''none''] (code_wait_times_out 0 waiting_for_code))
       = Inr [(1, AskPhone), (1, Attempting ''+12345678900''), (1, AskCode),
              (1, CodeAlreadyProcessed), (1, PasswordReceived), (1, LoginFailed)]"
proof -
  let ?b = "code_wait_times_out 0 waiting_for_code"
  have 1: "task_state_of waiting_for_code 0 = Running AtCode" by code_simp
  have 2: "sent waiting_for_code = [(1, AskPhone), (1, Attempting ''+12345678900''), (1, AskCode)]"
    by code_simp
  have 3: "task_state_of ?b 0 = Finished None" by code_simp
  have 4: "\<not> connected (fst (task_run ?b (tasks ?b 0)))" by code_simp
  have 5: "sent ?b = [(1, AskPhone), (1, Attempting ''+12345678900''), (1, AskCode)]"
    by code_simp
  have 6: "conversation ?b 1 = AWAIT_CODE" by code_simp
  have 7: "active_user_telethon_tasks ?b 1 = Some 0" by code_simp
  have 8: "map_sum id sent (run 1 [Text ''54321''] ?b)
       = Inr [(1, AskPhone), (1, Attempting ''+12345678900''), (1, AskCode),
              (1, CodeAlreadyProcessed)]"
    by code_simp
  have 9: "map_sum id sent (run 1 [Text ''54321'', Text ''none''] ?b)
       = Inr [(1, AskPhone), (1, Attempting ''+12345678900''), (1, AskCode),
              (1, CodeAlreadyProcessed), (1, PasswordReceived), (1, LoginFailed)]"
    by code_simp
  from 1 2 3 4 5 6 7 8 9 show ?thesis by blast
qed

subsection \<open>A second login beside a session that is watching\<close>

text \<open>
  Claim C1. User 1 has logged in: the success message was sent and the watch phase of
  the session runs. The registered task ended when \<open>run_user_instance\<close> returned the id,
  so \<open>/login\<close> is not refused: the bot asks for the phone number. With the phone number a
  second session task is registered for the same user while the first session is still
  live.
\<close>

theorem login_not_refused_beside_watching_session:
  "active_user_telethon_tasks logged_in 1 = Some 0
   \<and> task_state_of logged_in 0 = Finished (Some 42)
   \<and> watching (fst (task_run logged_in (tasks logged_in 0)))
   \<and> live_sessions logged_in 1 = [0]
   \<and> snd (login_entry 1 logged_in) = AWAIT_PHONE
   \<and> sent (fst (login_entry 1 logged_in)) = sent logged_in @ [(1, AskPhone)]
   \<and> active_user_telethon_tasks logged_in_twice 1 = Some 1
   \<and> live_sessions logged_in_twice 1 = [0, 1]"
proof -
  have 1: "active_user_telethon_tasks logged_in 1 = Some 0" by code_simp
  have 2: "task_state_of logged_in 0 = Finished (Some 42)" by code_simp
  have 3: "watching (fst (task_run logged_in (tasks logged_in 0)))" by code_simp
  have 4: "live_sessions logged_in 1 = [0]" by code_simp
  have 5: "snd (login_entry 1 logged_in) = AWAIT_PHONE" by code_simp
  have 6: "sent (fst (login_entry 1 logged_in)) = sent logged_in @ [(1, AskPhone)]" by code_simp
  have 7: "active_user_telethon_tasks logged_in_twice 1 = Some 1" by code_simp
  have 8: "live_sessions logged_in_twice 1 = [0, 1]" by code_simp
  from 1 2 3 4 5 6 7 8 show ?thesis by blast
qed

end
